theory Spec2Isabelle
  imports Complex_Main "HOL-Library.Sublist"
begin

section \<open>Strings of Unicode code points\<close>

text \<open>
  A Python \<open>str\<close> is a sequence of Unicode code points, so a string is a list of
  natural numbers here.  ASCII literals are written through \<open>of_ascii\<close>.
\<close>

type_synonym ustr = "nat list"

definition of_ascii :: "string \<Rightarrow> ustr" where
  "of_ascii s = map of_char s"

text \<open>
  The Unicode character database is a library of the interpreter, not code of the
  repository: \<open>str.lower\<close>, \<open>unicodedata.normalize('NFD', _)\<close> and the test
  \<open>unicodedata.category(c) == 'Mn'\<close> are parameters of the model.
\<close>

record unicode_db =
  str_lower :: "ustr \<Rightarrow> ustr"
  nfd :: "ustr \<Rightarrow> ustr"
  is_Mn :: "nat \<Rightarrow> bool"

text \<open>
  The database restricted to Basic Latin: on a string of code points below 128,
  \<open>lower\<close> maps \<open>A-Z\<close> to \<open>a-z\<close>, NFD changes nothing and no character is a
  nonspacing mark.  It is used to evaluate the model on ASCII inputs.
\<close>

definition ascii_lower :: "ustr \<Rightarrow> ustr" where
  "ascii_lower s = map (\<lambda>c. if 65 \<le> c \<and> c \<le> 90 then c + 32 else c) s"

definition ascii_db :: unicode_db where
  "ascii_db = \<lparr> str_lower = ascii_lower, nfd = (\<lambda>s. s), is_Mn = (\<lambda>c. False) \<rparr>"

subsection \<open>The regular expressions of data\_helpers.py\<close>

text \<open>\<open>str.isspace\<close>: the code points Python treats as whitespace.\<close>

definition is_space :: "nat \<Rightarrow> bool" where
  "is_space c \<longleftrightarrow> (9 \<le> c \<and> c \<le> 13) \<or> (28 \<le> c \<and> c \<le> 32) \<or> c = 133 \<or> c = 160
     \<or> c = 5760 \<or> (8192 \<le> c \<and> c \<le> 8202) \<or> c = 8232 \<or> c = 8233 \<or> c = 8239
     \<or> c = 8287 \<or> c = 12288"

definition strip :: "ustr \<Rightarrow> ustr" where
  "strip s = rev (dropWhile is_space (rev (dropWhile is_space s)))"

definition is_open :: "nat \<Rightarrow> bool" where
  "is_open c \<longleftrightarrow> c = 40 \<or> c = 91"

definition is_close :: "nat \<Rightarrow> bool" where
  "is_close c \<longleftrightarrow> c = 41 \<or> c = 93"

text \<open>
  After an opening bracket, \<open>.*?[\)\]]\<close> ends at the first closing bracket, unless a
  newline (which \<open>.\<close> does not match) comes first.  The result is the text after the
  match.
\<close>

fun find_close :: "ustr \<Rightarrow> ustr option" where
  "find_close [] = None"
| "find_close (c # cs) =
     (if is_close c then Some cs else if c = 10 then None else find_close cs)"

lemma find_close_shorter: "find_close cs = Some r \<Longrightarrow> length r < length cs"
  by (induction cs) (auto split: if_splits)

text \<open>\<open>re.sub("[\(\[].*?[\)\]]", " ", s)\<close>: leftmost matches, left to right.\<close>

function sub_brackets :: "ustr \<Rightarrow> ustr" where
  "sub_brackets [] = []"
| "sub_brackets (c # cs) =
     (if is_open c
      then (case find_close cs of
              Some r \<Rightarrow> 32 # sub_brackets r
            | None \<Rightarrow> c # sub_brackets cs)
      else c # sub_brackets cs)"
  by pat_completeness auto
termination
  by (relation "measure length") (auto dest: find_close_shorter)

text \<open>
  The other patterns are sequences of literal characters and \<open>.\<close> (any character
  but a newline).
\<close>

datatype pitem = Lit nat | Dot

fun match_prefix :: "pitem list \<Rightarrow> ustr \<Rightarrow> ustr option" where
  "match_prefix [] s = Some s"
| "match_prefix (p # ps) [] = None"
| "match_prefix (Lit a # ps) (c # cs) = (if a = c then match_prefix ps cs else None)"
| "match_prefix (Dot # ps) (c # cs) = (if c = 10 then None else match_prefix ps cs)"

lemma match_prefix_length:
  "match_prefix p s = Some r \<Longrightarrow> length r + length p = length s"
  by (induction p s rule: match_prefix.induct) (auto split: if_splits)

text \<open>
  \<open>re.sub(p, repl, s)\<close> for such a pattern: at each position from the left, a match is
  replaced and the scan goes on after it.  (An empty pattern matches between all
  characters.)
\<close>

function re_sub :: "pitem list \<Rightarrow> ustr \<Rightarrow> ustr \<Rightarrow> ustr" where
  "re_sub [] repl s = repl @ concat (map (\<lambda>c. c # repl) s)"
| "re_sub (p # ps) repl [] = []"
| "re_sub (p # ps) repl (c # cs) =
     (case match_prefix (p # ps) (c # cs) of
        Some r \<Rightarrow> repl @ re_sub (p # ps) repl r
      | None \<Rightarrow> c # re_sub (p # ps) repl cs)"
  by pat_completeness auto
termination
  by (relation "measure (\<lambda>(p, repl, s). length s)") (auto dest: match_prefix_length)

definition lits :: "string \<Rightarrow> pitem list" where
  "lits s = map (\<lambda>c. Lit (of_char c)) s"

text \<open>\<open>re.sub(X+, " ", s)\<close> for a character class \<open>X\<close>: every maximal run becomes one space.\<close>

function sub_runs :: "(nat \<Rightarrow> bool) \<Rightarrow> ustr \<Rightarrow> ustr" where
  "sub_runs P [] = []"
| "sub_runs P (c # cs) =
     (if P c then 32 # sub_runs P (dropWhile P cs) else c # sub_runs P cs)"
  by pat_completeness auto
termination
  by (relation "measure (\<lambda>(P, s). length s)") (auto simp: less_Suc_eq_le length_dropWhile_le)

text \<open>The characters kept by \<open>[^A-Za-z0-9 \<dots>]+\<close>, with the five ranges as the code has them.\<close>

definition allowed :: "nat \<Rightarrow> bool" where
  "allowed c \<longleftrightarrow> (65 \<le> c \<and> c \<le> 90) \<or> (97 \<le> c \<and> c \<le> 122) \<or> (48 \<le> c \<and> c \<le> 57) \<or> c = 32
     \<or> (44032 \<le> c \<and> c \<le> 55203) \<or> (12352 \<le> c \<and> c \<le> 12543)
     \<or> (19968 \<le> c \<and> c \<le> 40959) \<or> (1024 \<le> c \<and> c \<le> 1279) \<or> (3584 \<le> c \<and> c \<le> 3711)"

subsection \<open>The Normalizer\<close>

definition remove_accents :: "unicode_db \<Rightarrow> ustr \<Rightarrow> ustr" where
  "remove_accents db s = filter (\<lambda>c. \<not> is_Mn db c) (nfd db s)"

definition replace_char :: "nat \<Rightarrow> ustr \<Rightarrow> ustr" where
  "replace_char a s = map (\<lambda>c. if c = a then 32 else c) s"

definition ct :: "ustr \<Rightarrow> ustr" where
  "ct input_str = strip (sub_runs (\<lambda>c. c = 32) (sub_brackets input_str))"

definition cs :: "unicode_db \<Rightarrow> ustr \<Rightarrow> ustr" where
  "cs db input_str =
    (let s = str_lower db input_str;
         s = sub_brackets s;
         s = replace_char 91 s;
         s = replace_char 93 s;
         s = replace_char 40 s;
         s = replace_char 41 s;
         s = replace_char 47 s;
         s = replace_char 38 s;
         s = remove_accents db s;
         s = re_sub (lits ''featurering'') [] s;
         s = re_sub (lits ''feature'') [] s;
         s = re_sub (lits ''feat'' @ [Dot]) [] s;
         s = re_sub (lits ''ft'' @ [Dot]) [] s;
         s = sub_runs (\<lambda>c. \<not> allowed c) s;
         s = sub_runs (\<lambda>c. c = 32) s
     in strip s)"

text \<open>
  The alphabet the specification promises for a cleaned string: ASCII letters and
  digits, the space, and the Unicode blocks Hangul Syllables (U+AC00..U+D7AF),
  Hiragana and Katakana (U+3040..U+30FF), CJK Unified Ideographs (U+4E00..U+9FFF),
  Cyrillic (U+0400..U+04FF) and Thai (U+0E00..U+0E7F).
\<close>

definition spec_char :: "nat \<Rightarrow> bool" where
  "spec_char c \<longleftrightarrow>
     (65 \<le> c \<and> c \<le> 90) \<or> (97 \<le> c \<and> c \<le> 122) \<or> (48 \<le> c \<and> c \<le> 57) \<or> c = 32
     \<or> (44032 \<le> c \<and> c \<le> 55215)
     \<or> (12352 \<le> c \<and> c \<le> 12447) \<or> (12448 \<le> c \<and> c \<le> 12543)
     \<or> (19968 \<le> c \<and> c \<le> 40959)
     \<or> (1024 \<le> c \<and> c \<le> 1279)
     \<or> (3584 \<le> c \<and> c \<le> 3711)"

text \<open>A pattern occurs in a string when it matches at some position.\<close>

fun occurs :: "pitem list \<Rightarrow> ustr \<Rightarrow> bool" where
  "occurs p [] = (match_prefix p [] \<noteq> None)"
| "occurs p (c # r) = (match_prefix p (c # r) \<noteq> None \<or> occurs p r)"

text \<open>No two spaces are adjacent.\<close>

fun single_spaced :: "ustr \<Rightarrow> bool" where
  "single_spaced (a # b # r) = (\<not> (a = 32 \<and> b = 32) \<and> single_spaced (b # r))"
| "single_spaced s = True"

lemmas cs_eval = cs_def of_ascii_def ascii_db_def ascii_lower_def lits_def replace_char_def
  remove_accents_def strip_def is_open_def is_close_def allowed_def is_space_def


section \<open>Python values, errors and floating-point numbers\<close>

datatype error = KeyError | TypeError | ZeroDivisionError | ValueError | ExternalError | RetryError

text \<open>
  The values a track dictionary holds: text, numbers and \<open>None\<close>.  A number is the
  exact rational value of the Python \<open>int\<close> or \<open>float\<close>.
\<close>

datatype pyval = Str ustr | Num rat | NoneV

type_synonym track = "string \<rightharpoonup> pyval"

text \<open>
  A Python \<open>float\<close> is an IEEE 754 binary64 number: a rational \<open>m * 2^e\<close> with
  \<open>|m| < 2^53\<close>.  Every arithmetic operation returns the exact result rounded to the
  nearest such number, ties to the even mantissa.  The exponent range is not bounded
  here: the distances and confidences of this program are far from overflow and from
  the subnormal numbers.
\<close>

fun bits :: "nat \<Rightarrow> nat" where
  "bits n = (if n = 0 then 0 else Suc (bits (n div 2)))"

declare bits.simps [simp del]

text \<open>The exponent \<open>e\<close> with \<open>2^e \<le> x < 2^(e+1)\<close>, for \<open>x > 0\<close>.\<close>

definition ilog2 :: "rat \<Rightarrow> int" where
  "ilog2 x = (if 1 \<le> x then int (bits (nat \<lfloor>x\<rfloor>)) - 1
              else - int (bits (nat (\<lceil>1 / x\<rceil> - 1))))"

definition round_half_even :: "rat \<Rightarrow> int" where
  "round_half_even x =
     (let f = \<lfloor>x\<rfloor>; d = x - of_int f
      in if d < 1 / 2 then f else if 1 / 2 < d then f + 1 else if even f then f else f + 1)"

definition float_round :: "rat \<Rightarrow> rat" where
  "float_round x =
     (if x = 0 then 0
      else let e = ilog2 \<bar>x\<bar> - 52
           in of_int (round_half_even (x / 2 powi e)) * 2 powi e)"

definition fadd :: "rat \<Rightarrow> rat \<Rightarrow> rat" where
  "fadd a b = float_round (a + b)"

definition fsub :: "rat \<Rightarrow> rat \<Rightarrow> rat" where
  "fsub a b = float_round (a - b)"

text \<open>True division; the callers check the divisor.\<close>

definition fdiv :: "rat \<Rightarrow> rat \<Rightarrow> rat" where
  "fdiv a b = float_round (a / b)"

text \<open>
  \<open>round(x, 2)\<close>: the exact value of \<open>x\<close> is rounded to two decimals, ties to even,
  and the decimal result is read back as a float.
\<close>

definition py_round2 :: "rat \<Rightarrow> rat" where
  "py_round2 x = float_round (of_int (round_half_even (x * 100)) / 100)"

section \<open>The Asymmetric Distance Scorer\<close>

text \<open>\<open>str.split()\<close>: the maximal runs of characters that are not whitespace.\<close>

fun split_aux :: "ustr \<Rightarrow> ustr \<Rightarrow> ustr list" where
  "split_aux cur [] = (if cur = [] then [] else [cur])"
| "split_aux cur (c # r) =
     (if is_space c then (if cur = [] then split_aux [] r else cur # split_aux [] r)
      else split_aux (cur @ [c]) r)"

definition split :: "ustr \<Rightarrow> ustr list" where
  "split s = split_aux [] s"

text \<open>\<open>' '.join(xs)\<close>\<close>

fun join :: "ustr list \<Rightarrow> ustr" where
  "join [] = []"
| "join [x] = x"
| "join (x # y # r) = x @ 32 # join (y # r)"

text \<open>
  \<open>re.search(token, str_long)\<close> uses the token as the pattern.  The program calls the
  function on cleaned strings only; their tokens hold no metacharacter of regular
  expressions (lemma \<open>cs_tokens_plain\<close> below), and the search is for the token as a
  contiguous substring.
\<close>

definition re_search :: "ustr \<Rightarrow> ustr \<Rightarrow> bool" where
  "re_search token str_long = occurs (map Lit token) str_long"

text \<open>The token list after the one-letter tokens are joined into one.\<close>

definition token_list :: "ustr \<Rightarrow> ustr list" where
  "token_list str_short =
     (let token_short = split str_short;
          to_be_joined = filter (\<lambda>x. length x = 1) token_short;
          token_short = filter (\<lambda>x. x \<notin> set to_be_joined) token_short
      in if length to_be_joined > 0 then token_short @ [join to_be_joined] else token_short)"

definition get_asymmetric_token_distance :: "ustr \<Rightarrow> ustr \<Rightarrow> rat \<times> ustr" where
  "get_asymmetric_token_distance str_short str_long =
     (let token_short = token_list str_short;
          dist = fold (\<lambda>token dist.
                    if \<not> re_search token str_long
                    then fadd dist (fdiv 1 (of_nat (length token_short)))
                    else dist) token_short 0;
          str_best_list = filter (\<lambda>token. re_search token str_long) token_short
      in (dist, join str_best_list))"

text \<open>The metacharacters of regular expressions.\<close>

definition is_meta :: "nat \<Rightarrow> bool" where
  "is_meta c \<longleftrightarrow> c \<in> set (of_ascii ''.^$*+?{}[]|()'') \<or> c = 92"

section \<open>The Candidate Ranker\<close>

text \<open>
  A search result and the metadata of a video are dictionaries of the two external
  libraries; a key may be absent.  \<open>dump\<close> is \<open>str(meta)\<close>.
\<close>

record search_result =
  url_suffix :: "pyval option"
  title :: "pyval option"
  long_desc :: "pyval option"
  channel :: "pyval option"

record video_meta =
  duration :: "pyval option"
  dump :: ustr

text \<open>
  The external provider as it answers during one call of \<open>extract_youtube_link\<close>:
  the search by query, the metadata by position in the scan and URL.  Either may raise.
\<close>

record provider =
  youtube_search :: "ustr \<Rightarrow> error + search_result list"
  extract_info :: "nat \<Rightarrow> ustr \<Rightarrow> error + video_meta"

definition youtube_url_prefix :: ustr where
  "youtube_url_prefix = of_ascii ''https://www.youtube.com''"

text \<open>\<open>a + b\<close> where \<open>b\<close> is text: \<open>a\<close> must be text too.\<close>

definition str_add :: "pyval \<Rightarrow> ustr \<Rightarrow> error + ustr" where
  "str_add a b = (case a of Str s \<Rightarrow> Inr (s @ b) | _ \<Rightarrow> Inl TypeError)"

text \<open>
  \<open>if key in result: meta += result[key] + sep\<close> inside \<open>try\<close>: a value that is
  not text raises, and the handler leaves \<open>meta\<close> as it was.
\<close>

definition add_field :: "pyval option \<Rightarrow> ustr \<Rightarrow> ustr \<Rightarrow> ustr" where
  "add_field field sep m =
     (case field of
        None \<Rightarrow> m
      | Some v \<Rightarrow> (case str_add v sep of Inl e \<Rightarrow> m | Inr s \<Rightarrow> m @ s))"

text \<open>What one iteration computes for a search result before it touches the track.\<close>

record candidate =
  artist_meta :: ustr
  artist_dist :: rat
  song_name_meta :: ustr
  song_name_dist :: rat
  confidence_score :: rat
  check_official :: bool
  youtube_url :: ustr

definition evaluate_candidate ::
  "unicode_db \<Rightarrow> provider \<Rightarrow> ustr \<Rightarrow> ustr \<Rightarrow> nat \<Rightarrow> search_result \<Rightarrow> error + candidate" where
  "evaluate_candidate db p artists song_name res_idx result =
     (case url_suffix result of
        None \<Rightarrow> Inl KeyError
      | Some (Str u) \<Rightarrow>
          (let url = youtube_url_prefix @ u in
           case extract_info p res_idx url of
             Inl e \<Rightarrow> Inl e
           | Inr info \<Rightarrow>
               (let dur = (case duration info of None \<Rightarrow> Num 0 | Some d \<Rightarrow> d);
                    m = dump info @ [32];
                    m = add_field (title result) [32] m;
                    m = add_field (long_desc result) [32] m;
                    m = add_field (channel result) [] m;
                    m = cs db m;
                    (a_dist, a_meta) = get_asymmetric_token_distance (cs db artists) m;
                    (s_dist, s_meta) = get_asymmetric_token_distance (cs db song_name) m;
                    official = occurs (lits ''official'') m;
                    conf = fdiv (fadd (fsub 1 s_dist) (fsub 1 a_dist)) 2
                in case dur of
                     Num d \<Rightarrow>
                       Inr \<lparr> artist_meta = a_meta, artist_dist = a_dist,
                             song_name_meta = s_meta, song_name_dist = s_dist,
                             confidence_score = (if 900 \<le> d then 0 else conf),
                             check_official = official, youtube_url = url \<rparr>
                   | _ \<Rightarrow> Inl TypeError))
      | Some _ \<Rightarrow> Inl TypeError)"

text \<open>The assignments of lines 103 to 116.\<close>

definition store :: "track \<Rightarrow> nat \<Rightarrow> candidate \<Rightarrow> track" where
  "store t res_idx c =
     (let t = t(''metadata_artist'' \<mapsto> Str (artist_meta c));
          t = t(''artist_dist'' \<mapsto> Num (artist_dist c));
          t = t(''metadata_song_name'' \<mapsto> Str (song_name_meta c));
          t = t(''song_name_dist'' \<mapsto> Num (song_name_dist c));
          t = t(''youtube_url_confidence'' \<mapsto> Num (confidence_score c));
          t = (if check_official c then t(''official'' \<mapsto> Str (of_ascii ''TRUE'')) else t);
          t = t(''youtube_url'' \<mapsto> Str (youtube_url c))
      in t(''result_idx'' \<mapsto> Num (of_nat res_idx)))"

text \<open>A comparison of a number with a dictionary entry: the entry must be a number.\<close>

definition num_of :: "track \<Rightarrow> string \<Rightarrow> error + rat" where
  "num_of t k =
     (case t k of None \<Rightarrow> Inl KeyError | Some (Num b) \<Rightarrow> Inr b | Some _ \<Rightarrow> Inl TypeError)"

text \<open>\<open>res_idx == 0 or confidence_score > track["youtube_url_confidence"]\<close>\<close>

definition is_better :: "track \<Rightarrow> nat \<Rightarrow> candidate \<Rightarrow> error + bool" where
  "is_better t res_idx c =
     (if res_idx = 0 then Inr True
      else case num_of t ''youtube_url_confidence'' of
             Inl e \<Rightarrow> Inl e
           | Inr b \<Rightarrow> Inr (b < confidence_score c))"

text \<open>
  One iteration of the loop over the search results: the track after it and whether
  the loop breaks.  An exception leaves the track as the iteration found it.
\<close>

definition scan_step ::
  "unicode_db \<Rightarrow> provider \<Rightarrow> ustr \<Rightarrow> ustr \<Rightarrow> nat \<Rightarrow> search_result \<Rightarrow> track
     \<Rightarrow> error + track \<times> bool" where
  "scan_step db p artists song_name res_idx result t =
     (case evaluate_candidate db p artists song_name res_idx result of
        Inl e \<Rightarrow> Inl e
      | Inr c \<Rightarrow>
          (case is_better t res_idx c of
             Inl e \<Rightarrow> Inl e
           | Inr better \<Rightarrow>
               (let t' = (if better then store t res_idx c else t) in
                case num_of t' ''youtube_url_confidence'' of
                  Inl e \<Rightarrow> Inl e
                | Inr b \<Rightarrow> Inr (t', float_round (4 / 5) < b))))"

fun scan ::
  "unicode_db \<Rightarrow> provider \<Rightarrow> ustr \<Rightarrow> ustr \<Rightarrow> nat \<Rightarrow> search_result list \<Rightarrow> track
     \<Rightarrow> track \<times> error option" where
  "scan db p artists song_name res_idx [] t = (t, None)"
| "scan db p artists song_name res_idx (result # results) t =
     (case scan_step db p artists song_name res_idx result t of
        Inl e \<Rightarrow> (t, Some e)
      | Inr (t', stop) \<Rightarrow>
          if stop then (t', None)
          else scan db p artists song_name (Suc res_idx) results t')"

text \<open>
  One call of the function under the retry decorator: the track as the call leaves it
  (a dictionary is changed in place, also by a call that raises) and the result.
\<close>

definition text_of :: "track \<Rightarrow> string \<Rightarrow> error + ustr" where
  "text_of t k =
     (case t k of None \<Rightarrow> Inl KeyError | Some (Str s) \<Rightarrow> Inr s | Some _ \<Rightarrow> Inl TypeError)"

definition extract_once :: "unicode_db \<Rightarrow> provider \<Rightarrow> track \<Rightarrow> track \<times> (error + bool)" where
  "extract_once db p t =
     (case text_of t ''artists'' of
        Inl e \<Rightarrow> (t, Inl e)
      | Inr artists \<Rightarrow>
     (case text_of t ''song_name'' of
        Inl e \<Rightarrow> (t, Inl e)
      | Inr song_name \<Rightarrow>
     (let search_terms = artists @ [32] @ song_name @ of_ascii '' official'' in
      case youtube_search p search_terms of
        Inl e \<Rightarrow> (t, Inl e)
      | Inr results_1 \<Rightarrow>
     (let search_terms = ct search_terms in
      case youtube_search p search_terms of
        Inl e \<Rightarrow> (t, Inl e)
      | Inr results_2 \<Rightarrow>
     (let results = results_1 @ results_2;
          t = t(''search_terms'' \<mapsto> Str search_terms);
          t = t(''cleaned_artist'' \<mapsto> Str (cs db artists));
          t = t(''cleaned_song_name'' \<mapsto> Str (cs db song_name))
      in case scan db p artists song_name 0 results t of
           (t, Some e) \<Rightarrow> (t, Inl e)
         | (t, None) \<Rightarrow>
             (case num_of t ''youtube_url_confidence'' of
                Inl e \<Rightarrow> (t, Inl e)
              | Inr b \<Rightarrow> (t(''youtube_url_confidence'' \<mapsto> Num (py_round2 b)), Inr True)))))))"

text \<open>The candidate at position \<open>res_idx\<close> has metadata with a duration of 900 seconds or more.\<close>

definition is_long :: "provider \<Rightarrow> nat \<Rightarrow> search_result \<Rightarrow> bool" where
  "is_long p res_idx result =
     (case url_suffix result of
        Some (Str u) \<Rightarrow>
          (case extract_info p res_idx (youtube_url_prefix @ u) of
             Inr info \<Rightarrow> (case duration info of Some (Num d) \<Rightarrow> 900 \<le> d | _ \<Rightarrow> False)
           | Inl e \<Rightarrow> False)
      | _ \<Rightarrow> False)"

section \<open>The Retrying Fetcher\<close>

text \<open>
  \<open>@retry(stop=stop_after_attempt(5), \<dots>)\<close>: the function is called again after every
  exception, on the same dictionary, and the fifth failure raises \<open>RetryError\<close>.  The
  waiting times have no effect on the result.  \<open>env k\<close> is the provider as it answers
  during attempt \<open>k\<close>.
\<close>

fun retrying ::
  "nat \<Rightarrow> (nat \<Rightarrow> track \<Rightarrow> track \<times> (error + bool)) \<Rightarrow> nat \<Rightarrow> track \<Rightarrow> track \<times> (error + bool)" where
  "retrying 0 f k t = (t, Inl RetryError)"
| "retrying (Suc n) f k t =
     (case f k t of
        (t', Inr ok) \<Rightarrow> (t', Inr ok)
      | (t', Inl e) \<Rightarrow> retrying n f (Suc k) t')"

definition extract_youtube_link ::
  "unicode_db \<Rightarrow> (nat \<Rightarrow> provider) \<Rightarrow> track \<Rightarrow> track \<times> (error + bool)" where
  "extract_youtube_link db env t = retrying 5 (\<lambda>k. extract_once db (env k)) 0 t"

section \<open>The Concurrent Dispatcher\<close>

record counters =
  count :: nat
  total :: nat
  succeeded :: nat
  failed :: nat

text \<open>
  One task.  The counters are updated under the lock, so the update is one step.
  The progress message divides by \<open>total\<close>.
\<close>

definition perform_extraction ::
  "unicode_db \<Rightarrow> (nat \<Rightarrow> provider) \<Rightarrow> nat \<Rightarrow> track \<Rightarrow> counters \<Rightarrow> error + track \<times> counters" where
  "perform_extraction db env len_tracks t g =
     (let g = g\<lparr>total := len_tracks\<rparr>;
          (t, r) = extract_youtube_link db env t;
          success = (case r of Inl err \<Rightarrow> False | Inr ok \<Rightarrow> ok);
          g = g\<lparr>count := count g + 1\<rparr>;
          g = (if success then g\<lparr>succeeded := succeeded g + 1\<rparr>
               else g\<lparr>failed := failed g + 1\<rparr>)
      in if count g mod 2 = 0 \<and> total g = 0 then Inl ZeroDivisionError
         else Inr (t, g))"

text \<open>
  \<open>pool.map\<close> over the tracks.  The tasks share nothing but the counters, every task
  works on its own dictionary and the counter updates commute, so the tasks are run
  here one after the other, in the order of the list; \<open>envs i\<close> is the provider as the
  task of track \<open>i\<close> sees it.
\<close>

fun pool_map ::
  "unicode_db \<Rightarrow> (nat \<Rightarrow> nat \<Rightarrow> provider) \<Rightarrow> nat \<Rightarrow> nat \<Rightarrow> track list \<Rightarrow> counters
     \<Rightarrow> error + track list \<times> counters" where
  "pool_map db envs len_tracks i [] g = Inr ([], g)"
| "pool_map db envs len_tracks i (t # ts) g =
     (case perform_extraction db (envs i) len_tracks t g of
        Inl e \<Rightarrow> Inl e
      | Inr (t', g') \<Rightarrow>
          (case pool_map db envs len_tracks (Suc i) ts g' of
             Inl e \<Rightarrow> Inl e
           | Inr (ts', g'') \<Rightarrow> Inr (t' # ts', g'')))"

text \<open>The task of a track counts as succeeded.\<close>

definition task_ok :: "unicode_db \<Rightarrow> (nat \<Rightarrow> provider) \<Rightarrow> track \<Rightarrow> bool" where
  "task_ok db env t = (case snd (extract_youtube_link db env t) of Inl err \<Rightarrow> False | Inr ok \<Rightarrow> ok)"

section \<open>The Resume/Merge Manager\<close>

text \<open>
  A data frame indexed by \<open>isrc\<close> is the list of its rows, each a dictionary that holds
  its \<open>isrc\<close>.  Reading a CSV file gives a data frame or raises.
\<close>

type_synonym dataframe = "track list"

datatype log_message = Loading_csv_files | Found_csv_files nat | Cannot_resume | Writing_file

definition isrc_of :: "track \<Rightarrow> pyval option" where
  "isrc_of row = row ''isrc''"

text \<open>\<open>df.drop(labels)\<close> raises when a label is not in the index of \<open>df\<close>.\<close>

definition drop_rows :: "dataframe \<Rightarrow> pyval option list \<Rightarrow> error + dataframe" where
  "drop_rows df labels =
     (if list_ex (\<lambda>l. l \<notin> set (map isrc_of df)) labels then Inl KeyError
      else Inr (filter (\<lambda>row. isrc_of row \<notin> set labels) df))"

fun read_all :: "(error + dataframe) list \<Rightarrow> error + dataframe list" where
  "read_all [] = Inr []"
| "read_all (f # fs) =
     (case f of
        Inl e \<Rightarrow> Inl e
      | Inr df \<Rightarrow> (case read_all fs of Inl e \<Rightarrow> Inl e | Inr dfs \<Rightarrow> Inr (df # dfs)))"

definition build_dataframe ::
  "(error + dataframe) list \<Rightarrow> bool \<Rightarrow> error + dataframe \<Rightarrow> nat option
     \<Rightarrow> error + dataframe \<times> log_message list" where
  "build_dataframe data_files resume output_csv subset_n =
     (case read_all data_files of
        Inl e \<Rightarrow> Inl e
      | Inr dataframes \<Rightarrow>
          if dataframes = [] then Inl ValueError
          else
            (let logs = [Loading_csv_files, Found_csv_files (length data_files)];
                 df = concat dataframes;
                 df = (case subset_n of None \<Rightarrow> df | Some n \<Rightarrow> take n df)
             in if resume
                then (case output_csv of
                        Inl e \<Rightarrow> Inr (df, logs @ [Cannot_resume])
                      | Inr df_output \<Rightarrow>
                          (case drop_rows df (map isrc_of df_output) of
                             Inl e \<Rightarrow> Inr (df, logs @ [Cannot_resume])
                           | Inr df' \<Rightarrow> Inr (df', logs)))
                else Inr (df, logs)))"

text \<open>\<open>set_index("isrc")\<close> raises when no row has the column.\<close>

definition write_dataframe ::
  "track list \<Rightarrow> error + dataframe \<Rightarrow> bool \<Rightarrow> error + dataframe \<times> log_message list" where
  "write_dataframe list_of_dict output_csv resume =
     (if \<not> list_ex (\<lambda>row. isrc_of row \<noteq> None) list_of_dict then Inl KeyError
      else if resume
           then (case output_csv of
                   Inl e \<Rightarrow> Inr (list_of_dict, [Cannot_resume, Writing_file])
                 | Inr df_output \<Rightarrow> Inr (list_of_dict @ df_output, [Writing_file]))
           else Inr (list_of_dict, [Writing_file]))"

section \<open>The main program\<close>

text \<open>
  What a run does: the tracks handed to the pool, the data frame written (if any), and
  how the program ends, with the seconds per track of the last log message or with the
  exception that stops it.  \<open>execution_time\<close> is the measured time.
\<close>

record outcome =
  dispatched :: "track list"
  written :: "dataframe option"
  finished :: "error + rat"

definition main ::
  "unicode_db \<Rightarrow> (nat \<Rightarrow> nat \<Rightarrow> provider) \<Rightarrow> (error + dataframe) list \<Rightarrow> bool
     \<Rightarrow> error + dataframe \<Rightarrow> rat \<Rightarrow> outcome" where
  "main db envs data_files resume output_csv execution_time =
     (case build_dataframe data_files resume output_csv None of
        Inl e \<Rightarrow> \<lparr> dispatched = [], written = None, finished = Inl e \<rparr>
      | Inr (tracks, logs) \<Rightarrow>
          (let report = (if length tracks = 0 then Inl ZeroDivisionError
                         else Inr (fdiv execution_time (of_nat (length tracks))))
           in if length tracks > 0
              then (case pool_map db envs (length tracks) 0 tracks
                           \<lparr> count = 0, total = 0, succeeded = 0, failed = 0 \<rparr> of
                      Inl e \<Rightarrow> \<lparr> dispatched = tracks, written = None, finished = Inl e \<rparr>
                    | Inr (tracks', g) \<Rightarrow>
                        (case write_dataframe tracks' output_csv resume of
                           Inl e \<Rightarrow> \<lparr> dispatched = tracks, written = None, finished = Inl e \<rparr>
                         | Inr (df, logs') \<Rightarrow>
                             \<lparr> dispatched = tracks, written = Some df, finished = report \<rparr>))
              else \<lparr> dispatched = [], written = None, finished = report \<rparr>))"

section \<open>Example data\<close>

text \<open>Three rows of a catalog.\<close>

definition row1 :: track where
  "row1 = [''isrc'' \<mapsto> Str (of_ascii ''ISRC001''), ''artists'' \<mapsto> Str (of_ascii ''Daft Punk''),
           ''song_name'' \<mapsto> Str (of_ascii ''One More Time'')]"

definition row2 :: track where
  "row2 = [''isrc'' \<mapsto> Str (of_ascii ''ISRC002''), ''artists'' \<mapsto> Str (of_ascii ''Air''),
           ''song_name'' \<mapsto> Str (of_ascii ''La Femme'')]"

definition row9 :: track where
  "row9 = [''isrc'' \<mapsto> Str (of_ascii ''ISRC999''), ''artists'' \<mapsto> Str (of_ascii ''Moby''),
           ''song_name'' \<mapsto> Str (of_ascii ''Porcelain'')]"


text \<open>A provider that finds nothing, and a search result with two providers of metadata.\<close>

definition no_results :: provider where
  "no_results = \<lparr> youtube_search = (\<lambda>q. Inr []), extract_info = (\<lambda>i u. Inl ExternalError) \<rparr>"

definition demo_result :: search_result where
  "demo_result = \<lparr> url_suffix = Some (Str (of_ascii ''/watch?v=1'')), title = None,
                    long_desc = Some NoneV, channel = Some (Str (of_ascii ''Vevo'')) \<rparr>"

definition demo_provider :: provider where
  "demo_provider =
     \<lparr> youtube_search = (\<lambda>q. Inr [demo_result]),
       extract_info = (\<lambda>i u. Inr (if i = 0 then \<lparr> duration = Some (Num 200), dump = of_ascii ''Air'' \<rparr>
                                    else \<lparr> duration = None, dump = of_ascii ''AIR - La Femme (Official)'' \<rparr>)) \<rparr>"

definition long_provider :: provider where
  "long_provider =
     \<lparr> youtube_search = (\<lambda>q. Inr [demo_result]),
       extract_info = (\<lambda>i u. Inr (if i = 0 then \<lparr> duration = Some (Num 1000), dump = of_ascii ''Air La Femme'' \<rparr>
                                    else \<lparr> duration = Some (Num 100), dump = of_ascii ''zz'' \<rparr>)) \<rparr>"

definition demo_candidate_1 :: candidate where
  "demo_candidate_1 =
     \<lparr> artist_meta = of_ascii ''air'', artist_dist = 0, song_name_meta = of_ascii ''la femme'',
       song_name_dist = 0, confidence_score = 1, check_official = False,
       youtube_url = of_ascii ''https://www.youtube.com/watch?v=1'' \<rparr>"

definition long_candidate :: candidate where
  "long_candidate =
     \<lparr> artist_meta = of_ascii ''air'', artist_dist = 0, song_name_meta = of_ascii ''la femme'',
       song_name_dist = 0, confidence_score = 0, check_official = False,
       youtube_url = of_ascii ''https://www.youtube.com/watch?v=1'' \<rparr>"

definition unmatched_candidate :: candidate where
  "unmatched_candidate =
     \<lparr> artist_meta = [], artist_dist = 1, song_name_meta = [],
       song_name_dist = 1, confidence_score = 0, check_official = False,
       youtube_url = of_ascii ''https://www.youtube.com/watch?v=1'' \<rparr>"

text \<open>A provider whose search raises, and a run where it serves the first track.\<close>

definition down_provider :: provider where
  "down_provider = \<lparr> youtube_search = (\<lambda>q. Inl ExternalError),
                      extract_info = (\<lambda>i u. Inl ExternalError) \<rparr>"

definition demo_envs :: "nat \<Rightarrow> nat \<Rightarrow> provider" where
  "demo_envs i k = (if i = 0 then down_provider else demo_provider)"

definition zero_counters :: counters where
  "zero_counters = \<lparr> count = 0, total = 0, succeeded = 0, failed = 0 \<rparr>"

text \<open>
  The first candidate of \<open>demo_provider\<close>, the second row after it is stored, and the
  second row when it already carries a confidence.
\<close>

definition demo_candidate_0 :: candidate where
  "demo_candidate_0 =
     \<lparr> artist_meta = of_ascii ''air'', artist_dist = 0, song_name_meta = [],
       song_name_dist = 1, confidence_score = 1 / 2, check_official = False,
       youtube_url = of_ascii ''https://www.youtube.com/watch?v=1'' \<rparr>"

definition first_track :: track where
  "first_track = store row2 0 demo_candidate_0"

definition full_track :: track where
  "full_track = row2(''youtube_url_confidence'' \<mapsto> Num 1)"



section \<open>Properties of the Normalizer\<close>

lemma set_sub_runs: "set (sub_runs P s) \<subseteq> insert 32 {c \<in> set s. \<not> P c}"
proof (induction P s rule: sub_runs.induct)
  case (1 P)
  then show ?case by simp
next
  case (2 P c cs)
  show ?case
  proof (cases "P c")
    case True
    have "set (dropWhile P cs) \<subseteq> set cs" by (rule set_dropWhileD[THEN subsetI])
    with 2(1)[OF True] True show ?thesis by auto
  next
    case False
    with 2(2)[OF False] show ?thesis by auto
  qed
qed

lemma set_strip: "set (strip s) \<subseteq> set s"
proof -
  have "set (strip s) = set (dropWhile is_space (rev (dropWhile is_space s)))"
    by (simp add: strip_def)
  also have "\<dots> \<subseteq> set (rev (dropWhile is_space s))"
    by (rule set_dropWhileD[THEN subsetI])
  also have "\<dots> \<subseteq> set s"
    using set_dropWhileD[of _ is_space s] by auto
  finally show ?thesis .
qed

lemma allowed_space: "allowed 32"
  by (simp add: allowed_def)

lemma cs_chars_allowed: "c \<in> set (cs db s) \<Longrightarrow> allowed c"
proof -
  assume c: "c \<in> set (cs db s)"
  obtain u where u: "cs db s = strip (sub_runs (\<lambda>c. c = 32) (sub_runs (\<lambda>c. \<not> allowed c) u))"
    by (simp add: cs_def Let_def)
  from c u have "c \<in> set (sub_runs (\<lambda>c. c = 32) (sub_runs (\<lambda>c. \<not> allowed c) u))"
    using set_strip by auto
  then have "c = 32 \<or> c \<in> set (sub_runs (\<lambda>c. \<not> allowed c) u)"
    using set_sub_runs[of "\<lambda>c. c = 32"] by auto
  then show "allowed c"
    using set_sub_runs[of "\<lambda>c. \<not> allowed c" u] allowed_space by auto
qed

lemma sub_brackets_id: "\<forall>c \<in> set s. \<not> is_open c \<Longrightarrow> sub_brackets s = s"
  by (induction s) auto

lemma replace_char_id: "a \<notin> set s \<Longrightarrow> replace_char a s = s"
  by (induction s) (auto simp: replace_char_def)

lemma re_sub_id: "\<not> occurs (p # ps) s \<Longrightarrow> re_sub (p # ps) repl s = s"
  by (induction s) auto

lemma match_prefix_append:
  "match_prefix (p @ q) s = Some y \<Longrightarrow> \<exists>z. match_prefix p s = Some z"
  by (induction p s rule: match_prefix.induct) (auto split: if_splits)

lemma occurs_append: "occurs (p @ q) s \<Longrightarrow> occurs p s"
  by (induction s) (auto dest: match_prefix_append)

lemma sub_runs_id: "\<forall>c \<in> set s. \<not> P c \<Longrightarrow> sub_runs P s = s"
  by (induction s) auto

lemma sub_runs_hd: "sub_runs P s = a # r \<Longrightarrow> P a \<Longrightarrow> \<exists>c cs. s = c # cs \<and> P c"
  by (cases s) (auto split: if_splits)

lemma sub_runs_spaces_single: "single_spaced (sub_runs (\<lambda>c. c = 32) s)"
proof (induction "\<lambda>c::nat. c = 32" s rule: sub_runs.induct)
  case 1
  then show ?case by simp
next
  case (2 c cs)
  show ?case
  proof (cases "c = 32")
    case True
    let ?d = "dropWhile (\<lambda>c. c = 32) cs"
    have ih: "single_spaced (sub_runs (\<lambda>c. c = 32) ?d)" using 2(1) True by simp
    show ?thesis
    proof (cases "sub_runs (\<lambda>c. c = 32) ?d")
      case Nil
      with True show ?thesis by simp
    next
      case (Cons a r)
      have "a \<noteq> 32"
      proof
        assume "a = 32"
        with Cons sub_runs_hd[of "\<lambda>c. c = 32" ?d a r] obtain c' cs' where "?d = c' # cs'" "c' = 32"
          by auto
        then show False using hd_dropWhile[of "\<lambda>c. c = 32" cs] by auto
      qed
      with Cons ih True show ?thesis by simp
    qed
  next
    case False
    with 2(2) show ?thesis by (cases "sub_runs (\<lambda>c. c = 32) cs") auto
  qed
qed

lemma single_spaced_id: "single_spaced s \<Longrightarrow> sub_runs (\<lambda>c. c = 32) s = s"
  by (induction s rule: single_spaced.induct) auto

lemma single_spaced_sublist: "single_spaced s \<longleftrightarrow> \<not> sublist [32, 32] s"
  by (induction s rule: single_spaced.induct) (auto simp: sublist_Cons_right)

lemma strip_sublist: "sublist (strip s) s"
proof -
  have "suffix (dropWhile is_space s) s" by (rule suffix_dropWhile)
  moreover have "suffix (dropWhile is_space (rev (dropWhile is_space s))) (rev (dropWhile is_space s))"
    by (rule suffix_dropWhile)
  then have "prefix (strip s) (dropWhile is_space s)"
    by (simp add: strip_def suffix_to_prefix)
  ultimately show ?thesis
    by (meson prefix_imp_sublist suffix_imp_sublist sublist_order.order_trans)
qed

lemma single_spaced_strip: "single_spaced s \<Longrightarrow> single_spaced (strip s)"
  using strip_sublist[of s] by (auto simp: single_spaced_sublist dest: sublist_order.order_trans)

lemma dropWhile_rev_id:
  assumes "s = [] \<or> \<not> P (hd s)"
  shows "dropWhile P s = s"
  using assms by (cases s) auto

lemma strip_idem: "strip (strip s) = strip s"
proof -
  let ?a = "dropWhile is_space s"
  let ?b = "dropWhile is_space (rev ?a)"
  have b: "?b = [] \<or> \<not> is_space (hd ?b)"
    using hd_dropWhile[of is_space "rev ?a"] by auto
  have a: "?a = [] \<or> \<not> is_space (hd ?a)"
    using hd_dropWhile[of is_space s] by auto
  have "rev ?b = [] \<or> \<not> is_space (hd (rev ?b))"
  proof (cases "?a = []")
    case True
    then have "rev ?b = []" by (simp only: rev.simps dropWhile.simps)
    then show ?thesis by (rule disjI1)
  next
    case False
    from a False have h: "\<not> is_space (hd ?a)" by blast
    have "last (rev ?a) = hd ?a" by (rule last_rev)
    with h have na: "\<not> is_space (last (rev ?a))" by metis
    have "rev ?a = takeWhile is_space (rev ?a) @ ?b" by simp
    have "?b \<noteq> []"
    proof
      assume "?b = []"
      then have "\<forall>x \<in> set (rev ?a). is_space x" by (simp add: dropWhile_eq_Nil_conv)
      moreover have "last (rev ?a) \<in> set (rev ?a)" using False by (intro last_in_set) simp
      ultimately show False using na by blast
    qed
    then have "last ?b = last (rev ?a)"
      by (metis last_appendR takeWhile_dropWhile_id)
    with na \<open>?b \<noteq> []\<close> show ?thesis by (simp add: hd_rev)
  qed
  then have 1: "dropWhile is_space (rev ?b) = rev ?b" by (rule dropWhile_rev_id)
  have 2: "dropWhile is_space ?b = ?b" using b by (rule dropWhile_rev_id)
  show ?thesis
    unfolding strip_def[of s] strip_def[of "rev ?b"] by (simp only: 1 rev_rev_ident 2)
qed

lemma allowed_spec_char: "allowed c \<Longrightarrow> spec_char c"
  unfolding allowed_def spec_char_def by arith

text \<open>
  C9: for every string \<open>s\<close> (and whatever the Unicode database says), every character
  of \<open>cs s\<close> is an ASCII letter or digit, a space, or lies in one of the five allowed
  Unicode blocks.
\<close>

theorem cs_alphabet: "c \<in> set (cs db s) \<Longrightarrow> spec_char c"
  by (rule allowed_spec_char) (rule cs_chars_allowed)

theorem cs_alphabet_witness:
  "112 \<in> set (cs ascii_db (of_ascii ''Daft Punk (Live)'')) \<and> spec_char 112"
proof -
  have h: "112 \<in> set (cs ascii_db (of_ascii ''Daft Punk (Live)''))"
    by (simp add: cs_eval)
  from cs_alphabet[OF h] h show ?thesis by blast
qed

subsection \<open>Idempotence of the strong cleaning\<close>

text \<open>
  The four removals run one after the other, each once: removing \<open>ft.\<close> from
  \<open>feaft.ture\<close> leaves \<open>feature\<close>, which only a second call removes.
\<close>

theorem cs_not_idempotent:
  "cs ascii_db (cs ascii_db (of_ascii ''feaft.ture'')) \<noteq> cs ascii_db (of_ascii ''feaft.ture'')"
  by (simp add: cs_eval)

lemma occurs_featurering:
  assumes "\<not> occurs (lits ''feature'') t"
  shows "\<not> occurs (lits ''featurering'') t"
proof -
  have "lits ''featurering'' = lits ''feature'' @ lits ''ring''" by (simp add: lits_def)
  with assms occurs_append show ?thesis by metis
qed

text \<open>
  C3 (amended): \<open>cs (cs s) = cs s\<close> for every string \<open>s\<close> whose cleaned form is left
  unchanged by lowercasing and by accent removal and contains no match of the patterns
  \<open>feature\<close>, \<open>feat.\<close> and \<open>ft.\<close>.
\<close>

theorem cs_idempotent_when_stable:
  assumes lower: "str_lower db (cs db s) = cs db s"
    and accents: "remove_accents db (cs db s) = cs db s"
    and p1: "\<not> occurs (lits ''feature'') (cs db s)"
    and p2: "\<not> occurs (lits ''feat'' @ [Dot]) (cs db s)"
    and p3: "\<not> occurs (lits ''ft'' @ [Dot]) (cs db s)"
  shows "cs db (cs db s) = cs db s"
proof -
  let ?t = "cs db s"
  have al: "\<forall>c \<in> set ?t. allowed c" using cs_chars_allowed by blast
  have nb: "\<forall>c \<in> set ?t. \<not> is_open c" using al by (auto simp: allowed_def is_open_def)
  have stripped: "strip ?t = ?t"
    using strip_idem by (simp add: cs_def Let_def)
  have "single_spaced ?t"
    unfolding cs_def Let_def by (rule single_spaced_strip) (rule sub_runs_spaces_single)
  then have s7: "sub_runs (\<lambda>c. c = 32) ?t = ?t" by (rule single_spaced_id)
  have s6: "sub_runs (\<lambda>c. \<not> allowed c) ?t = ?t" using al by (intro sub_runs_id) simp
  have s1: "sub_brackets ?t = ?t" using nb by (rule sub_brackets_id)
  have r: "replace_char 91 ?t = ?t" "replace_char 93 ?t = ?t" "replace_char 40 ?t = ?t"
    "replace_char 41 ?t = ?t" "replace_char 47 ?t = ?t" "replace_char 38 ?t = ?t"
    using al by (auto intro!: replace_char_id simp: allowed_def)
  have p0: "\<not> occurs (lits ''featurering'') ?t" using p1 by (rule occurs_featurering)
  have q0: "re_sub (lits ''featurering'') [] ?t = ?t" using p0 by (simp add: lits_def re_sub_id)
  have q1: "re_sub (lits ''feature'') [] ?t = ?t" using p1 by (simp add: lits_def re_sub_id)
  have q2: "re_sub (lits ''feat'' @ [Dot]) [] ?t = ?t" using p2 by (simp add: lits_def re_sub_id)
  have q3: "re_sub (lits ''ft'' @ [Dot]) [] ?t = ?t" using p3 by (simp add: lits_def re_sub_id)
  have "cs db ?t = strip (sub_runs (\<lambda>c. c = 32) (sub_runs (\<lambda>c. \<not> allowed c)
          (re_sub (lits ''ft'' @ [Dot]) [] (re_sub (lits ''feat'' @ [Dot]) []
          (re_sub (lits ''feature'') [] (re_sub (lits ''featurering'') []
          (remove_accents db (replace_char 38 (replace_char 47 (replace_char 41
          (replace_char 40 (replace_char 93 (replace_char 91 (sub_brackets
          (str_lower db ?t)))))))))))))))"
    unfolding cs_def[of db ?t] Let_def ..
  also have "\<dots> = ?t"
    by (simp only: lower s1 r accents q0 q1 q2 q3 s6 s7 stripped)
  finally show ?thesis .
qed

theorem cs_idempotent_when_stable_witness:
  "str_lower ascii_db (cs ascii_db (of_ascii ''Daft Punk (Live)'')) = cs ascii_db (of_ascii ''Daft Punk (Live)'')
   \<and> remove_accents ascii_db (cs ascii_db (of_ascii ''Daft Punk (Live)'')) = cs ascii_db (of_ascii ''Daft Punk (Live)'')
   \<and> \<not> occurs (lits ''feature'') (cs ascii_db (of_ascii ''Daft Punk (Live)''))
   \<and> \<not> occurs (lits ''feat'' @ [Dot]) (cs ascii_db (of_ascii ''Daft Punk (Live)''))
   \<and> \<not> occurs (lits ''ft'' @ [Dot]) (cs ascii_db (of_ascii ''Daft Punk (Live)''))
   \<and> cs ascii_db (cs ascii_db (of_ascii ''Daft Punk (Live)'')) = cs ascii_db (of_ascii ''Daft Punk (Live)'')"
proof -
  let ?t = "cs ascii_db (of_ascii ''Daft Punk (Live)'')"
  have v: "?t = of_ascii ''dapunk''" by (simp add: cs_eval)
  have h1: "str_lower ascii_db ?t = ?t" unfolding v by (simp add: cs_eval)
  have h2: "remove_accents ascii_db ?t = ?t" unfolding v by (simp add: cs_eval)
  have h3: "\<not> occurs (lits ''feature'') ?t" unfolding v by (simp add: cs_eval)
  have h4: "\<not> occurs (lits ''feat'' @ [Dot]) ?t" unfolding v by (simp add: cs_eval)
  have h5: "\<not> occurs (lits ''ft'' @ [Dot]) ?t" unfolding v by (simp add: cs_eval)
  from cs_idempotent_when_stable[OF h1 h2 h3 h4 h5] h1 h2 h3 h4 h5 show ?thesis by blast
qed


section \<open>Properties of the floating-point model\<close>

lemma bits_bounds: "0 < n \<Longrightarrow> 2 ^ (bits n - 1) \<le> n \<and> n < 2 ^ bits n"
proof (induction n rule: bits.induct)
  case (1 n)
  show ?case
  proof (cases "n div 2 = 0")
    case True
    with 1(2) have "n = 1" by (simp add: div_eq_0_iff)
    then show ?thesis by (simp add: bits.simps[of "Suc 0"] bits.simps[of 0])
  next
    case False
    then have pos: "0 < n div 2" by simp
    from 1(2) have n0: "n \<noteq> 0" by simp
    from 1(1)[OF n0 pos] have ih: "2 ^ (bits (n div 2) - 1) \<le> n div 2" "n div 2 < 2 ^ bits (n div 2)"
      by auto
    have b: "bits n = Suc (bits (n div 2))" using n0 by (simp add: bits.simps[of n])
    have k: "0 < bits (n div 2)" using pos by (simp add: bits.simps[of "n div 2"])
    then have "(2::nat) ^ bits (n div 2) = 2 * 2 ^ (bits (n div 2) - 1)"
      by (cases "bits (n div 2)") auto
    with ih(1) have lo: "2 ^ bits (n div 2) \<le> n" by simp
    from ih(2) have "n < 2 * 2 ^ bits (n div 2)" by simp
    with lo b show ?thesis by simp
  qed
qed

lemma ilog2_bounds:
  assumes "0 < x"
  shows "2 powi ilog2 x \<le> x \<and> x < 2 powi (ilog2 x + 1)"
proof (cases "1 \<le> x")
  case True
  let ?n = "nat \<lfloor>x\<rfloor>"
  have n1: "0 < ?n" using True by simp
  have e: "ilog2 x = int (bits ?n) - 1" using True by (simp add: ilog2_def)
  have bpos: "0 < bits ?n" using n1 by (simp add: bits.simps[of ?n])
  from bits_bounds[OF n1] have lo: "2 ^ (bits ?n - 1) \<le> ?n" and hi: "?n < 2 ^ bits ?n" by auto
  have "int (bits ?n) - 1 = int (bits ?n - 1)" using bpos by simp
  then have p1: "(2::rat) powi ilog2 x = 2 ^ (bits ?n - 1)"
    unfolding e by (simp only: power_int_of_nat)
  have p2: "(2::rat) powi (ilog2 x + 1) = 2 ^ bits ?n"
    unfolding e by (simp add: power_int_of_nat)
  have "(of_nat (2 ^ (bits ?n - 1)) :: rat) \<le> of_nat ?n" using lo by (simp only: of_nat_le_iff)
  also have "(of_nat ?n :: rat) = of_int \<lfloor>x\<rfloor>" using True by simp
  also have "\<dots> \<le> x" by simp
  finally have a: "(2::rat) ^ (bits ?n - 1) \<le> x" by simp
  have "\<lfloor>x\<rfloor> + 1 \<le> 2 ^ bits ?n"
  proof -
    have "int ?n < int (2 ^ bits ?n)" using hi by (simp only: of_nat_less_iff)
    then show ?thesis using True by simp
  qed
  then have "(of_int (\<lfloor>x\<rfloor> + 1) :: rat) \<le> of_int (2 ^ bits ?n)" by (simp only: of_int_le_iff)
  moreover have "x < of_int (\<lfloor>x\<rfloor> + 1)" by linarith
  ultimately have b: "x < 2 ^ bits ?n" by simp
  from a b p1 p2 show ?thesis by simp
next
  case False
  let ?m = "nat (\<lceil>1 / x\<rceil> - 1)"
  have x1: "x < 1" using False by simp
  have inv: "1 < 1 / x" using assms x1 by simp
  then have c2: "2 \<le> \<lceil>1 / x\<rceil>" by linarith
  then have m1: "0 < ?m" by simp
  have e: "ilog2 x = - int (bits ?m)" using False by (simp add: ilog2_def)
  have bpos: "0 < bits ?m" using m1 by (simp add: bits.simps[of ?m])
  from bits_bounds[OF m1] have lo: "2 ^ (bits ?m - 1) \<le> ?m" and hi: "?m < 2 ^ bits ?m" by auto
  have mlt: "(of_nat ?m :: rat) < 1 / x"
  proof -
    from c2 have "0 \<le> \<lceil>1 / x\<rceil> - 1" by linarith
    then have "int ?m = \<lceil>1 / x\<rceil> - 1" by (simp only: int_nat_eq if_True)
    then have "(of_nat ?m :: rat) = of_int (\<lceil>1 / x\<rceil> - 1)" by (metis of_int_of_nat_eq)
    also have "\<dots> < 1 / x" by linarith
    finally show ?thesis .
  qed
  have mge: "1 / x \<le> of_nat ?m + 1"
  proof -
    from c2 have "0 \<le> \<lceil>1 / x\<rceil> - 1" by linarith
    then have "int ?m = \<lceil>1 / x\<rceil> - 1" by (simp only: int_nat_eq if_True)
    then have "(of_nat ?m :: rat) = of_int (\<lceil>1 / x\<rceil> - 1)" by (metis of_int_of_nat_eq)
    then have "(of_nat ?m :: rat) + 1 = of_int \<lceil>1 / x\<rceil>" by simp
    then show ?thesis by simp
  qed
  have "(of_nat ?m :: rat) + 1 \<le> of_nat (2 ^ bits ?m)"
    using hi by (metis Suc_leI of_nat_Suc of_nat_le_iff add.commute plus_1_eq_Suc)
  with mge have "1 / x \<le> 2 ^ bits ?m" by simp
  then have a: "1 / 2 ^ bits ?m \<le> x" using assms
    by (simp add: field_simps)
  have "(of_nat (2 ^ (bits ?m - 1)) :: rat) \<le> of_nat ?m" using lo by (simp only: of_nat_le_iff)
  then have "(of_nat (2 ^ (bits ?m - 1)) :: rat) < 1 / x" using mlt by (rule le_less_trans)
  then have "(2::rat) ^ (bits ?m - 1) < 1 / x" by (simp only: of_nat_power of_nat_numeral)
  then have b: "x < 1 / 2 ^ (bits ?m - 1)" using assms by (simp add: field_simps)
  have p1: "(2::rat) powi ilog2 x = 1 / 2 ^ bits ?m"
    unfolding e by (simp add: power_int_minus power_int_of_nat divide_inverse)
  have "ilog2 x + 1 = - int (bits ?m - 1)" unfolding e using bpos by simp
  then have p2: "(2::rat) powi (ilog2 x + 1) = 1 / 2 ^ (bits ?m - 1)"
    by (simp add: power_int_minus power_int_of_nat divide_inverse)
  from a b p1 p2 show ?thesis by simp
qed

lemma ilog2_unique:
  assumes "0 < x" "2 powi e \<le> x" "x < 2 powi (e + 1)"
  shows "ilog2 x = e"
proof (rule antisym)
  from ilog2_bounds[OF assms(1)] have b: "2 powi ilog2 x \<le> x" "x < 2 powi (ilog2 x + 1)" by auto
  show "ilog2 x \<le> e"
  proof (rule ccontr)
    assume "\<not> ilog2 x \<le> e"
    then have "e + 1 \<le> ilog2 x" by simp
    then have "(2::rat) powi (e + 1) \<le> 2 powi ilog2 x" by (intro power_int_increasing) auto
    with b(1) assms(3) show False by simp
  qed
  show "e \<le> ilog2 x"
  proof (rule ccontr)
    assume "\<not> e \<le> ilog2 x"
    then have "ilog2 x + 1 \<le> e" by simp
    then have "(2::rat) powi (ilog2 x + 1) \<le> 2 powi e" by (intro power_int_increasing) auto
    with b(2) assms(2) show False by simp
  qed
qed

lemma int_eq_if_close:
  assumes "\<bar>(of_int a :: rat) - of_int b\<bar> < 1"
  shows "a = b"
proof -
  have "\<bar>(of_int (a - b) :: rat)\<bar> < 1" using assms by simp
  then have "(of_int \<bar>a - b\<bar> :: rat) < of_int 1" by (simp only: of_int_abs of_int_1)
  then have "\<bar>a - b\<bar> < 1" by (simp only: of_int_less_iff)
  then show ?thesis by simp
qed

lemma round_half_even_eqI:
  assumes "\<bar>x - of_int m\<bar> < 1 / 2"
  shows "round_half_even x = m"
proof -
  let ?f = "\<lfloor>x\<rfloor>"
  have f: "of_int ?f \<le> x" "x < of_int ?f + 1" by linarith+
  show ?thesis
  proof (cases "x - of_int ?f < 1 / 2")
    case True
    have "\<bar>(of_int ?f :: rat) - of_int m\<bar> < 1" using True f assms by linarith
    then have "?f = m" by (rule int_eq_if_close)
    with True show ?thesis by (simp add: round_half_even_def Let_def)
  next
    case False
    have "x - of_int ?f \<noteq> 1 / 2"
    proof
      assume h: "x - of_int ?f = 1 / 2"
      have "\<bar>(of_int ?f :: rat) - of_int m\<bar> < 1" using h assms by linarith
      then have "?f = m" by (rule int_eq_if_close)
      with h assms show False by simp
    qed
    with False have gt: "1 / 2 < x - of_int ?f" by simp
    have "\<bar>(of_int ?f :: rat) + 1 - of_int m\<bar> < 1" using gt f assms by linarith
    then have "\<bar>(of_int (?f + 1) :: rat) - of_int m\<bar> < 1" by simp
    then have "?f + 1 = m" by (rule int_eq_if_close)
    with False gt show ?thesis by (simp add: round_half_even_def Let_def)
  qed
qed

lemma round_half_even_of_int [simp]: "round_half_even (of_int m) = m"
  by (rule round_half_even_eqI) simp

lemma round_half_even_err: "\<bar>of_int (round_half_even x) - x\<bar> \<le> 1 / 2"
proof -
  let ?f = "\<lfloor>x\<rfloor>"
  have f: "of_int ?f \<le> x" "x < of_int ?f + 1" by linarith+
  consider "x - of_int ?f < 1 / 2" | "1 / 2 < x - of_int ?f" | "x - of_int ?f = 1 / 2"
    by linarith
  then show ?thesis
  proof cases
    case 1
    then have "round_half_even x = ?f" by (simp add: round_half_even_def Let_def)
    with 1 f show ?thesis by simp
  next
    case 2
    then have "round_half_even x = ?f + 1" by (simp add: round_half_even_def Let_def)
    with 2 f show ?thesis by simp
  next
    case 3
    then have "round_half_even x = ?f \<or> round_half_even x = ?f + 1"
      by (simp add: round_half_even_def Let_def)
    with 3 show ?thesis by auto
  qed
qed

lemma float_round_eqI:
  assumes "x \<noteq> 0" "2 powi e \<le> \<bar>x\<bar>" "\<bar>x\<bar> < 2 powi (e + 1)"
    and "\<bar>x / 2 powi (e - 52) - of_int m\<bar> < 1 / 2"
  shows "float_round x = of_int m * 2 powi (e - 52)"
proof -
  have "ilog2 \<bar>x\<bar> = e" using assms(1-3) by (intro ilog2_unique) auto
  then show ?thesis
    using assms(1) round_half_even_eqI[OF assms(4)] by (simp add: float_round_def Let_def)
qed

lemma float_round_rel:
  assumes "0 < x"
  shows "\<bar>float_round x - x\<bar> \<le> x / 2 ^ 53"
proof -
  let ?e = "ilog2 \<bar>x\<bar> - 52"
  let ?u = "(2::rat) powi ?e"
  have upos: "0 < ?u" by (simp add: power_int_def)
  have fr: "float_round x = of_int (round_half_even (x / ?u)) * ?u"
    using assms by (simp add: float_round_def Let_def)
  have "\<bar>float_round x - x\<bar> = \<bar>of_int (round_half_even (x / ?u)) - x / ?u\<bar> * ?u"
  proof -
    have "float_round x - x = (of_int (round_half_even (x / ?u)) - x / ?u) * ?u"
      unfolding fr using upos by (simp add: field_simps)
    then show ?thesis using upos by (simp add: abs_mult)
  qed
  also have "\<dots> \<le> 1 / 2 * ?u"
    using round_half_even_err[of "x / ?u"] upos by (intro mult_right_mono) auto
  also have "\<dots> \<le> x / 2 ^ 53"
  proof -
    have "2 powi ilog2 x \<le> x" using ilog2_bounds[OF assms] by simp
    moreover have "(2::rat) powi ilog2 x = ?u * 2 ^ 52"
      using assms by (simp add: power_int_diff)
    ultimately have "?u * 2 ^ 52 \<le> x" by simp
    then show ?thesis by (simp add: field_simps)
  qed
  finally show ?thesis .
qed

subsection \<open>Numbers that are floats already; some roundings\<close>

lemma float_round_representable:
  assumes "\<bar>m\<bar> < 2 ^ 53"
  shows "float_round (of_int m * 2 powi k) = of_int m * 2 powi k"
proof (cases "m = 0")
  case True
  then show ?thesis by (simp add: float_round_def)
next
  case False
  define x :: rat where "x = of_int m * 2 powi k"
  define e where "e = ilog2 \<bar>x\<bar>"
  have kpos: "0 < (2::rat) powi k" by (simp add: power_int_def)
  have x0: "x \<noteq> 0" using False kpos by (simp add: x_def)
  then have xpos: "0 < \<bar>x\<bar>" by simp
  from ilog2_bounds[OF xpos] have lo: "2 powi e \<le> \<bar>x\<bar>" by (simp add: e_def)
  have "(of_int \<bar>m\<bar> :: rat) < of_int (2 ^ 53)" using assms by (simp only: of_int_less_iff)
  then have "\<bar>of_int m :: rat\<bar> < 2 ^ 53" by simp
  then have "\<bar>x\<bar> < 2 ^ 53 * 2 powi k" using kpos by (simp add: abs_mult x_def)
  also have "\<dots> = 2 powi (53 + k)" by (simp add: power_int_add)
  finally have hi: "\<bar>x\<bar> < 2 powi (53 + k)" .
  have "e < 53 + k"
  proof (rule ccontr)
    assume "\<not> e < 53 + k"
    then have "(2::rat) powi (53 + k) \<le> 2 powi e" by (intro power_int_increasing) auto
    with lo hi show False by simp
  qed
  then have j: "0 \<le> k - (e - 52)" by simp
  define j where "j = nat (k - (e - 52))"
  have kj: "k = (e - 52) + int j" using j by (simp add: j_def)
  have "(2::rat) powi k = 2 powi (e - 52) * 2 ^ j"
    by (subst kj, subst power_int_add) (simp_all add: power_int_of_nat)
  then have xm: "x = of_int (m * 2 ^ j) * 2 powi (e - 52)" by (simp add: x_def mult.commute)
  have u0: "(2::rat) powi (e - 52) \<noteq> 0" by simp
  have "x / 2 powi (e - 52) = of_int (m * 2 ^ j)"
    by (subst xm) (simp only: nonzero_mult_div_cancel_right[OF u0])
  then have "round_half_even (x / 2 powi (e - 52)) = m * 2 ^ j"
    by (simp only: round_half_even_of_int)
  then have "float_round x = of_int (m * 2 ^ j) * 2 powi (e - 52)"
    using x0 by (simp add: float_round_def Let_def e_def)
  then have "float_round x = x" by (simp only: xm[symmetric])
  then show ?thesis by (simp only: x_def)
qed

lemma float_round_of_int: "\<bar>m\<bar> < 2 ^ 53 \<Longrightarrow> float_round (of_int m) = of_int m"
  using float_round_representable[of m 0] by simp

lemma float_round_small [simp]:
  "float_round 0 = 0" "float_round 1 = 1" "float_round 2 = 2" "float_round (1 / 2) = 1 / 2"
proof -
  show "float_round 0 = 0" by (simp add: float_round_def)
  show "float_round 1 = 1" using float_round_of_int[of 1] by simp
  show "float_round 2 = 2" using float_round_of_int[of 2] by simp
  show "float_round (1 / 2) = 1 / 2"
    using float_round_representable[of 1 "-1"] by (simp add: power_int_minus)
qed

lemma threshold_value: "float_round (4 / 5) = 3602879701896397 / 4503599627370496"
proof -
  have "float_round (4 / 5) = of_int 7205759403792794 * 2 powi (- 1 - 52)"
    by (rule float_round_eqI) (simp_all add: power_int_minus)
  also have "\<dots> = 3602879701896397 / 4503599627370496"
    by (simp add: power_int_minus)
  finally show ?thesis .
qed

lemma sixth_round_0: "float_round (1 / 6) = 6004799503160661 / 36028797018963968"
proof -
  have "float_round (1 / 6) = of_int 6004799503160661 * 2 powi (-3 - 52)"
    by (rule float_round_eqI) (simp_all add: power_int_minus)
  also have "\<dots> = 6004799503160661 / 36028797018963968"
    by (simp add: power_int_minus)
  finally show ?thesis .
qed

lemma sixth_round_1: "float_round (6004799503160661 / 36028797018963968) = 6004799503160661 / 36028797018963968"
proof -
  have "float_round (6004799503160661 / 36028797018963968) = of_int 6004799503160661 * 2 powi (-3 - 52)"
    by (rule float_round_eqI) (simp_all add: power_int_minus)
  also have "\<dots> = 6004799503160661 / 36028797018963968"
    by (simp add: power_int_minus)
  finally show ?thesis .
qed

lemma sixth_round_2: "float_round (6004799503160661 / 18014398509481984) = 6004799503160661 / 18014398509481984"
proof -
  have "float_round (6004799503160661 / 18014398509481984) = of_int 6004799503160661 * 2 powi (-2 - 52)"
    by (rule float_round_eqI) (simp_all add: power_int_minus)
  also have "\<dots> = 6004799503160661 / 18014398509481984"
    by (simp add: power_int_minus)
  finally show ?thesis .
qed

lemma float_round_eqI2:
  assumes "x \<noteq> 0" "2 powi e \<le> \<bar>x\<bar>" "\<bar>x\<bar> < 2 powi (e + 1)"
    and "round_half_even (x / 2 powi (e - 52)) = m"
  shows "float_round x = of_int m * 2 powi (e - 52)"
proof -
  have "ilog2 \<bar>x\<bar> = e" using assms(1-3) by (intro ilog2_unique) auto
  then show ?thesis
    using assms(1,4) by (simp add: float_round_def Let_def)
qed

lemma round_half_even_tie:
  assumes "x = of_int f + 1 / 2"
  shows "round_half_even x = (if even f then f else f + 1)"
proof -
  have "\<lfloor>x\<rfloor> = f" unfolding assms by (rule floor_unique) simp_all
  then show ?thesis by (simp add: round_half_even_def Let_def assms)
qed

lemma sixth_round_3: "float_round (18014398509481983 / 36028797018963968) = 1 / 2"
proof -
  have t: "round_half_even (18014398509481983 / 36028797018963968 / 2 powi (-2 - 52)) = 9007199254740992"
    using round_half_even_tie[of "18014398509481983 / 36028797018963968 / 2 powi (-2 - 52)" 9007199254740991]
    by (simp add: power_int_minus)
  have "float_round (18014398509481983 / 36028797018963968) = of_int 9007199254740992 * 2 powi (-2 - 52)"
    by (rule float_round_eqI2[OF _ _ _ t]) (simp_all add: power_int_minus)
  also have "\<dots> = 1 / 2"
    by (simp add: power_int_minus)
  finally show ?thesis .
qed

lemma sixth_round_4: "float_round (24019198012642645 / 36028797018963968) = 6004799503160661 / 9007199254740992"
proof -
  have "float_round (24019198012642645 / 36028797018963968) = of_int 6004799503160661 * 2 powi (-1 - 52)"
    by (rule float_round_eqI) (simp_all add: power_int_minus)
  also have "\<dots> = 6004799503160661 / 9007199254740992"
    by (simp add: power_int_minus)
  finally show ?thesis .
qed

lemma sixth_round_5: "float_round (30023997515803305 / 36028797018963968) = 3752999689475413 / 4503599627370496"
proof -
  have "float_round (30023997515803305 / 36028797018963968) = of_int 7505999378950826 * 2 powi (-1 - 52)"
    by (rule float_round_eqI) (simp_all add: power_int_minus)
  also have "\<dots> = 3752999689475413 / 4503599627370496"
    by (simp add: power_int_minus)
  finally show ?thesis .
qed

lemma sixth_round_6: "float_round (36028797018963965 / 36028797018963968) = 9007199254740991 / 9007199254740992"
proof -
  have "float_round (36028797018963965 / 36028797018963968) = of_int 9007199254740991 * 2 powi (-1 - 52)"
    by (rule float_round_eqI) (simp_all add: power_int_minus)
  also have "\<dots> = 9007199254740991 / 9007199254740992"
    by (simp add: power_int_minus)
  finally show ?thesis .
qed

lemmas sixth_rounds = sixth_round_0 sixth_round_1 sixth_round_2 sixth_round_3 sixth_round_4 sixth_round_5 sixth_round_6


lemma float_round_bounds:
  assumes "0 < x"
  shows "x * (1 - 1 / 2 ^ 53) \<le> float_round x" "float_round x \<le> x * (1 + 1 / 2 ^ 53)"
proof -
  from float_round_rel[OF assms] have "\<bar>float_round x - x\<bar> \<le> x / 2 ^ 53" .
  then have "x - x / 2 ^ 53 \<le> float_round x" "float_round x \<le> x + x / 2 ^ 53" by linarith+
  then show "x * (1 - 1 / 2 ^ 53) \<le> float_round x" "float_round x \<le> x * (1 + 1 / 2 ^ 53)"
    by (simp_all add: algebra_simps)
qed


section \<open>Properties of the Asymmetric Distance Scorer\<close>

lemma set_split_aux: "t \<in> set (split_aux cur s) \<Longrightarrow> set t \<subseteq> set cur \<union> set s"
  by (induction cur s rule: split_aux.induct) (auto split: if_splits)

lemma set_join: "set (join xs) \<subseteq> insert 32 (\<Union> (set ` set xs))"
  by (induction xs rule: join.induct) auto

lemma token_list_chars:
  assumes "t \<in> set (token_list s)"
  shows "set t \<subseteq> insert 32 (set s)"
proof -
  have sp: "\<And>x. x \<in> set (split s) \<Longrightarrow> set x \<subseteq> set s"
    using set_split_aux[of _ "[]" s] by (auto simp: split_def)
  let ?j = "filter (\<lambda>x. length x = 1) (split s)"
  have "set (join ?j) \<subseteq> insert 32 (set s)"
    using set_join[of ?j] sp by auto
  with assms sp show ?thesis
    by (auto simp: token_list_def Let_def split: if_splits)
qed

lemma allowed_not_meta: "allowed c \<Longrightarrow> \<not> is_meta c"
  by (auto simp: allowed_def is_meta_def of_ascii_def)

lemma cs_tokens_plain:
  assumes "t \<in> set (token_list (cs db s))" "c \<in> set t"
  shows "\<not> is_meta c"
proof -
  from token_list_chars[OF assms(1)] assms(2) have "c = 32 \<or> c \<in> set (cs db s)" by auto
  then have "allowed c" using cs_chars_allowed allowed_space by auto
  then show ?thesis by (rule allowed_not_meta)
qed

lemma six_tokens_distance:
  "get_asymmetric_token_distance (cs ascii_db (of_ascii ''aa bb cc dd ee ff'')) (cs ascii_db (of_ascii ''zz''))
     = (9007199254740991 / 9007199254740992, [])"
proof -
  have s: "cs ascii_db (of_ascii ''aa bb cc dd ee ff'') = of_ascii ''aa bb cc dd ee ff''"
    by (simp add: cs_eval)
  have l: "cs ascii_db (of_ascii ''zz'') = of_ascii ''zz''"
    by (simp add: cs_eval)
  show ?thesis
    unfolding s l
    by (simp add: get_asymmetric_token_distance_def token_list_def split_def re_search_def
          of_ascii_def is_space_def fadd_def fdiv_def Let_def sixth_rounds)
qed

text \<open>Without a token the loop does not run and the distance is 0.\<close>

lemma no_token_distance:
  assumes "token_list s = []"
  shows "get_asymmetric_token_distance s m = (0, [])"
  using assms by (simp add: get_asymmetric_token_distance_def)


lemma fold_all_missing:
  assumes "\<forall>tok \<in> set ts. \<not> re_search tok str_long"
  shows "fold (\<lambda>token dist. if \<not> re_search token str_long then fadd dist a else dist) ts d
           = ((\<lambda>d. fadd d a) ^^ length ts) d"
  using assms
proof (induction ts arbitrary: d)
  case Nil
  then show ?case by simp
next
  case (Cons t ts)
  then show ?case
    using funpow_swap1[of "\<lambda>d. fadd d a" "length ts" d] by simp
qed

lemma filter_all_missing:
  assumes "\<forall>tok \<in> set ts. \<not> re_search tok str_long"
  shows "filter (\<lambda>token. re_search token str_long) ts = []"
  using assms by (induction ts) auto

lemma repeated_sum_bounds:
  fixes a0 a :: rat
  assumes "0 < a0" "a0 * (1 - 1 / 2 ^ 53) \<le> a" "a \<le> a0 * (1 + 1 / 2 ^ 53)"
  shows "of_nat k * a0 * (1 - 1 / 2 ^ 53) ^ Suc k \<le> ((\<lambda>d. fadd d a) ^^ k) 0
         \<and> ((\<lambda>d. fadd d a) ^^ k) 0 \<le> of_nat k * a0 * (1 + 1 / 2 ^ 53) ^ Suc k"
proof (induction k)
  case 0
  then show ?case by simp
next
  case (Suc k)
  define lo :: rat where "lo = 1 - 1 / 2 ^ 53"
  define hi :: rat where "hi = 1 + 1 / 2 ^ 53"
  define s where "s = ((\<lambda>d. fadd d a) ^^ k) 0"
  have lo01: "0 < lo" "lo \<le> 1" by (simp_all add: lo_def)
  have hi1: "1 \<le> hi" by (simp add: hi_def)
  have ih: "of_nat k * a0 * lo ^ Suc k \<le> s" "s \<le> of_nat k * a0 * hi ^ Suc k"
    using Suc by (simp_all add: lo_def hi_def s_def)
  have a: "a0 * lo \<le> a" "a \<le> a0 * hi" using assms(2,3) by (simp_all add: lo_def hi_def)
  have apos: "0 < a" using assms(1) lo01(1) a(1) by (meson less_le_trans mult_pos_pos)
  have s0: "0 \<le> s"
  proof -
    have "0 \<le> of_nat k * a0 * lo ^ Suc k" using assms(1) lo01(1) by simp
    with ih(1) show ?thesis by simp
  qed
  have pos: "0 < s + a" using s0 apos by simp
  have next_eq: "((\<lambda>d. fadd d a) ^^ Suc k) 0 = float_round (s + a)"
    by (simp add: s_def fadd_def)
  have "lo ^ k \<le> 1" using lo01 by (intro power_le_one) auto
  then have lopow: "lo ^ Suc k \<le> lo" using lo01 by (simp add: mult_left_le)
  have hipow: "hi \<le> hi ^ Suc k" using hi1 by (simp add: self_le_power)
  have "of_nat (Suc k) * a0 * lo ^ Suc k \<le> of_nat k * a0 * lo ^ Suc k + a0 * lo"
  proof -
    have "a0 * lo ^ Suc k \<le> a0 * lo" using lopow assms(1) by (simp only: mult_le_cancel_left_pos)
    then show ?thesis by (simp add: algebra_simps)
  qed
  also have "\<dots> \<le> s + a" using ih(1) a(1) by simp
  finally have l1: "of_nat (Suc k) * a0 * lo ^ Suc k \<le> s + a" .
  have "s + a \<le> of_nat k * a0 * hi ^ Suc k + a0 * hi" using ih(2) a(2) by simp
  also have "\<dots> \<le> of_nat (Suc k) * a0 * hi ^ Suc k"
  proof -
    have "a0 * hi \<le> a0 * hi ^ Suc k" using hipow assms(1) by (simp only: mult_le_cancel_left_pos)
    then show ?thesis by (simp add: algebra_simps)
  qed
  finally have h1: "s + a \<le> of_nat (Suc k) * a0 * hi ^ Suc k" .
  have "of_nat (Suc k) * a0 * lo ^ Suc (Suc k) = (of_nat (Suc k) * a0 * lo ^ Suc k) * lo" by simp
  also have "\<dots> \<le> (s + a) * lo" using l1 lo01(1) by (simp only: mult_le_cancel_right_pos)
  also have "\<dots> \<le> float_round (s + a)" using float_round_bounds(1)[OF pos] by (simp add: lo_def)
  finally have L: "of_nat (Suc k) * a0 * lo ^ Suc (Suc k) \<le> float_round (s + a)" .
  have hpos: "0 < hi" using hi1 by simp
  have "float_round (s + a) \<le> (s + a) * hi" using float_round_bounds(2)[OF pos] by (simp add: hi_def)
  also have "\<dots> \<le> (of_nat (Suc k) * a0 * hi ^ Suc k) * hi" using h1 hpos by (simp only: mult_le_cancel_right_pos)
  also have "\<dots> = of_nat (Suc k) * a0 * hi ^ Suc (Suc k)" by simp
  finally have H: "float_round (s + a) \<le> of_nat (Suc k) * a0 * hi ^ Suc (Suc k)" .
  from L H show ?case unfolding next_eq lo_def hi_def by blast
qed

text \<open>
  How far from 1 the distance can be: for cleaned strings where the short string has
  \<open>n > 0\<close> tokens and none occurs in the long string, nothing is matched and the
  distance lies between \<open>(1 - 2^-53)^(n+1)\<close> and \<open>(1 + 2^-53)^(n+1)\<close>.
\<close>

lemma distance_when_nothing_matches:
  assumes "token_list (cs db a) \<noteq> []"
    and "\<forall>tok \<in> set (token_list (cs db a)). \<not> re_search tok (cs db m)"
  shows "snd (get_asymmetric_token_distance (cs db a) (cs db m)) = []
         \<and> (1 - 1 / 2 ^ 53) ^ Suc (length (token_list (cs db a)))
              \<le> fst (get_asymmetric_token_distance (cs db a) (cs db m))
         \<and> fst (get_asymmetric_token_distance (cs db a) (cs db m))
              \<le> (1 + 1 / 2 ^ 53) ^ Suc (length (token_list (cs db a)))"
proof -
  define ts where "ts = token_list (cs db a)"
  define n where "n = length ts"
  define a0 :: rat where "a0 = 1 / of_nat n"
  have npos: "0 < n" using assms(1) by (simp add: n_def ts_def)
  then have a0pos: "0 < a0" by (simp add: a0_def)
  have na0: "of_nat n * a0 = 1" using npos by (simp add: a0_def)
  have miss: "\<forall>tok \<in> set ts. \<not> re_search tok (cs db m)" using assms(2) by (simp add: ts_def)
  have "fst (get_asymmetric_token_distance (cs db a) (cs db m))
          = fold (\<lambda>token dist. if \<not> re_search token (cs db m)
                                then fadd dist (fdiv 1 (of_nat n)) else dist) ts 0"
    unfolding n_def ts_def by (simp add: get_asymmetric_token_distance_def Let_def)
  also have "\<dots> = ((\<lambda>d. fadd d (fdiv 1 (of_nat n))) ^^ length ts) 0"
    by (rule fold_all_missing[OF miss])
  finally have d: "fst (get_asymmetric_token_distance (cs db a) (cs db m))
             = ((\<lambda>d. fadd d (fdiv 1 (of_nat n))) ^^ n) 0"
    by (simp only: n_def)
  have b: "snd (get_asymmetric_token_distance (cs db a) (cs db m)) = []"
    using filter_all_missing[OF miss]
    by (simp add: get_asymmetric_token_distance_def Let_def ts_def)
  have fa: "fdiv 1 (of_nat n) = float_round a0" by (simp add: fdiv_def a0_def)
  from repeated_sum_bounds[OF a0pos float_round_bounds[OF a0pos], of n]
  have "of_nat n * a0 * (1 - 1 / 2 ^ 53) ^ Suc n \<le> ((\<lambda>d. fadd d (float_round a0)) ^^ n) 0"
    "((\<lambda>d. fadd d (float_round a0)) ^^ n) 0 \<le> of_nat n * a0 * (1 + 1 / 2 ^ 53) ^ Suc n"
    by auto
  then have "(1 - 1 / 2 ^ 53) ^ Suc n \<le> ((\<lambda>d. fadd d (float_round a0)) ^^ n) 0"
    "((\<lambda>d. fadd d (float_round a0)) ^^ n) 0 \<le> (1 + 1 / 2 ^ 53) ^ Suc n"
    by (simp_all only: na0 mult_1)
  with b d fa show ?thesis by (simp add: n_def ts_def)
qed

text \<open>
  C8 asks for a distance of exactly 1 when no token of the short string occurs in the
  long one, as the docstring of the function does.  For six tokens, none in the long
  string, the code adds the float \<open>1/6\<close> six times and returns \<open>1 - 2^-53\<close>, that is
  \<open>0.9999999999999999\<close>.
\<close>

theorem six_unmatched_tokens_below_one:
  "list_all (\<lambda>token. \<not> re_search token (cs ascii_db (of_ascii ''zz'')))
      (token_list (cs ascii_db (of_ascii ''aa bb cc dd ee ff'')))
   \<and> length (token_list (cs ascii_db (of_ascii ''aa bb cc dd ee ff''))) = 6
   \<and> get_asymmetric_token_distance (cs ascii_db (of_ascii ''aa bb cc dd ee ff''))
        (cs ascii_db (of_ascii ''zz'')) = (9007199254740991 / 9007199254740992, [])
   \<and> fst (get_asymmetric_token_distance (cs ascii_db (of_ascii ''aa bb cc dd ee ff''))
        (cs ascii_db (of_ascii ''zz''))) < 1"
proof -
  have s: "cs ascii_db (of_ascii ''aa bb cc dd ee ff'') = of_ascii ''aa bb cc dd ee ff''"
    by (simp add: cs_eval)
  have l: "cs ascii_db (of_ascii ''zz'') = of_ascii ''zz''"
    by (simp add: cs_eval)
  have t: "token_list (of_ascii ''aa bb cc dd ee ff'') =
      [of_ascii ''aa'', of_ascii ''bb'', of_ascii ''cc'', of_ascii ''dd'', of_ascii ''ee'', of_ascii ''ff'']"
    by (simp add: token_list_def split_def of_ascii_def is_space_def)
  have n: "list_all (\<lambda>token. \<not> re_search token (of_ascii ''zz''))
      (token_list (of_ascii ''aa bb cc dd ee ff''))"
    unfolding t by (simp add: re_search_def of_ascii_def)
  from six_tokens_distance n t show ?thesis unfolding s l by simp
qed


section \<open>Properties of the Candidate Ranker\<close>

lemmas eval_defs = cs_eval evaluate_candidate_def get_asymmetric_token_distance_def token_list_def
  split_def re_search_def fadd_def fsub_def fdiv_def add_field_def str_add_def
  youtube_url_prefix_def Let_def demo_result_def

lemma demo_candidate_0_eval:
  "evaluate_candidate ascii_db demo_provider (of_ascii ''Air'') (of_ascii ''La Femme'') 0 demo_result =
     Inr demo_candidate_0"
  by (simp add: eval_defs demo_provider_def demo_candidate_0_def)

lemma demo_candidate_1_eval:
  "evaluate_candidate ascii_db demo_provider (of_ascii ''Air'') (of_ascii ''La Femme'') (Suc 0) demo_result =
     Inr demo_candidate_1"
  by (simp add: eval_defs demo_provider_def demo_candidate_1_def)


lemma empty_results_attempt:
  assumes "text_of t ''artists'' = Inr a" "text_of t ''song_name'' = Inr s"
    and "t ''youtube_url_confidence'' = None"
    and "\<And>q. youtube_search p q = Inr []"
  shows "\<exists>t'. extract_once db p t = (t', Inl KeyError)
           \<and> text_of t' ''artists'' = Inr a \<and> text_of t' ''song_name'' = Inr s
           \<and> t' ''youtube_url_confidence'' = None"
  using assms by (simp add: extract_once_def Let_def num_of_def text_of_def)

lemma empty_results_retrying:
  assumes "text_of t ''artists'' = Inr a" "text_of t ''song_name'' = Inr s"
    and "t ''youtube_url_confidence'' = None"
    and "\<And>k q. youtube_search (env k) q = Inr []"
  shows "snd (retrying n (\<lambda>k. extract_once db (env k)) k t) = Inl RetryError"
  using assms(1-3)
proof (induction n arbitrary: k t)
  case 0
  then show ?case by simp
next
  case (Suc n)
  from empty_results_attempt[OF Suc(2) Suc(3) Suc(4), of "env k" db] assms(4)
  obtain t' where t': "extract_once db (env k) t = (t', Inl KeyError)"
    "text_of t' ''artists'' = Inr a" "text_of t' ''song_name'' = Inr s"
    "t' ''youtube_url_confidence'' = None" by blast
  from Suc(1)[OF t'(2) t'(3) t'(4)] t'(1) show ?case by simp
qed

text \<open>
  C2 asks that the extraction returns with a confidence recorded also when the search
  finds nothing.  With both result lists empty the loop body never runs, the key
  \<open>youtube_url_confidence\<close> is not in the dictionary and line 122 raises \<open>KeyError\<close>; the
  retries end the same way and the task fails.
\<close>

theorem empty_results_fail_the_track:
  "snd (extract_once db no_results row1) = Inl KeyError
   \<and> snd (extract_youtube_link db (\<lambda>k. no_results) row1) = Inl RetryError
   \<and> \<not> task_ok db (\<lambda>k. no_results) row1"
proof -
  have a: "text_of row1 ''artists'' = Inr (of_ascii ''Daft Punk'')"
    and s: "text_of row1 ''song_name'' = Inr (of_ascii ''One More Time'')"
    and c: "row1 ''youtube_url_confidence'' = None"
    by (simp_all add: text_of_def row1_def)
  have q: "\<And>q. youtube_search no_results q = Inr []" by (simp add: no_results_def)
  from empty_results_attempt[OF a s c q, of db]
  have 1: "snd (extract_once db no_results row1) = Inl KeyError" by auto
  have 2: "snd (extract_youtube_link db (\<lambda>k. no_results) row1) = Inl RetryError"
    unfolding extract_youtube_link_def by (rule empty_results_retrying[OF a s c q])
  from 1 2 show ?thesis by (simp add: task_ok_def)
qed

subsection \<open>The scan of the candidates\<close>

lemma store_conf [simp]:
  "num_of (store t i c) ''youtube_url_confidence'' = Inr (confidence_score c)"
  by (simp add: store_def num_of_def Let_def)

lemma store_idx [simp]: "store t i c ''result_idx'' = Some (Num (of_nat i))"
  by (simp add: store_def Let_def)

lemma scan_step_cases:
  assumes "scan_step db p a s i r t = Inr (t', stop)"
  shows "\<exists>c. evaluate_candidate db p a s i r = Inr c
           \<and> ((i = 0 \<or> (\<exists>b. num_of t ''youtube_url_confidence'' = Inr b \<and> b < confidence_score c))
                  \<and> t' = store t i c
               \<or> (i \<noteq> 0 \<and> (\<exists>b. num_of t ''youtube_url_confidence'' = Inr b \<and> \<not> b < confidence_score c))
                  \<and> t' = t)
           \<and> (\<exists>b'. num_of t' ''youtube_url_confidence'' = Inr b' \<and> stop = (float_round (4 / 5) < b'))"
  using assms
  by (auto simp: scan_step_def is_better_def Let_def split: sum.splits if_splits)

lemma scan_step_monotone:
  assumes "scan_step db p a s i r t = Inr (t', stop)" "i \<noteq> 0"
  shows "\<exists>b b'. num_of t ''youtube_url_confidence'' = Inr b
           \<and> num_of t' ''youtube_url_confidence'' = Inr b' \<and> b \<le> b'"
  using scan_step_cases[OF assms(1)] assms(2) by auto

lemma scan_monotone:
  assumes "scan db p a s i rs t = (t', out)" "i \<noteq> 0"
    and "num_of t ''youtube_url_confidence'' = Inr b"
  shows "\<exists>b'. num_of t' ''youtube_url_confidence'' = Inr b' \<and> b \<le> b'"
  using assms
proof (induction rs arbitrary: i t b)
  case Nil
  then show ?case by simp
next
  case (Cons r rs)
  show ?case
  proof (cases "scan_step db p a s i r t")
    case (Inl e)
    with Cons.prems show ?thesis by simp
  next
    case (Inr x)
    obtain t1 stop where x: "x = (t1, stop)" by (cases x)
    from scan_step_monotone[OF Inr[unfolded x] Cons.prems(2)] Cons.prems(3)
    obtain b1 where b1: "num_of t1 ''youtube_url_confidence'' = Inr b1" "b \<le> b1" by auto
    show ?thesis
    proof (cases stop)
      case True
      with Inr x Cons.prems(1) b1 show ?thesis by auto
    next
      case False
      with Inr x Cons.prems(1) have "scan db p a s (Suc i) rs t1 = (t', out)" by simp
      from Cons.IH[OF this _ b1(1)] b1(2) show ?thesis by auto
    qed
  qed
qed

lemma scan_prefix_monotone:
  assumes "xs \<noteq> []"
    and "scan db p a s i xs t = (t1, None)"
    and "scan db p a s i (xs @ ys) t = (t2, out)"
  shows "\<exists>b1 b2. num_of t1 ''youtube_url_confidence'' = Inr b1
           \<and> num_of t2 ''youtube_url_confidence'' = Inr b2 \<and> b1 \<le> b2"
  using assms
proof (induction xs arbitrary: i t)
  case Nil
  then show ?case by simp
next
  case (Cons r xs)
  show ?case
  proof (cases "scan_step db p a s i r t")
    case (Inl e)
    with Cons.prems(2) show ?thesis by simp
  next
    case (Inr x)
    obtain t' stop where x: "x = (t', stop)" by (cases x)
    from scan_step_cases[OF Inr[unfolded x]]
    obtain b where b: "num_of t' ''youtube_url_confidence'' = Inr b" by blast
    show ?thesis
    proof (cases stop)
      case True
      with Inr x Cons.prems(2,3) have "t1 = t'" "t2 = t'" by simp_all
      with b show ?thesis by auto
    next
      case False
      with Inr x Cons.prems(2,3) have
        r1: "scan db p a s (Suc i) xs t' = (t1, None)"
        and r2: "scan db p a s (Suc i) (xs @ ys) t' = (t2, out)" by simp_all
      show ?thesis
      proof (cases "xs = []")
        case True
        with r1 have "t1 = t'" by simp
        moreover from True r2 have "scan db p a s (Suc i) ys t' = (t2, out)" by simp
        from scan_monotone[OF this _ b] obtain b2 where
          "num_of t2 ''youtube_url_confidence'' = Inr b2" "b \<le> b2" by auto
        ultimately show ?thesis using b by auto
      next
        case False
        from Cons.IH[OF False r1 r2] show ?thesis .
      qed
    qed
  qed
qed

text \<open>
  The first candidate is stored whatever the track holds: a row that carries the
  confidence 1 before the scan holds \<open>1/2\<close> after its first candidate.
\<close>

theorem first_candidate_lowers_confidence:
  "scan ascii_db demo_provider (of_ascii ''Air'') (of_ascii ''La Femme'') 0 [demo_result] full_track
     = (store full_track 0 demo_candidate_0, None)
   \<and> num_of full_track ''youtube_url_confidence'' = Inr 1
   \<and> num_of (store full_track 0 demo_candidate_0) ''youtube_url_confidence'' = Inr (1 / 2)"
proof -
  have c: "confidence_score demo_candidate_0 = 1 / 2" by (simp add: demo_candidate_0_def)
  have s: "scan_step ascii_db demo_provider (of_ascii ''Air'') (of_ascii ''La Femme'') 0 demo_result full_track
      = Inr (store full_track 0 demo_candidate_0, False)"
    by (simp add: scan_step_def demo_candidate_0_eval is_better_def c threshold_value)
  have n: "num_of full_track ''youtube_url_confidence'' = Inr 1"
    by (simp add: num_of_def full_track_def)
  from s n c show ?thesis by simp
qed

text \<open>
  C5 (amended): an iteration overwrites the best-match fields exactly when the index is 0
  or the confidence of the candidate is strictly greater than the stored one; and in a
  scan that starts at the first candidate, the confidence stored after any candidates
  is at most the one stored after more of them, however the scan ends.  (What the track
  held before the scan is overwritten at index 0.)
\<close>

theorem confidence_monotone_in_scan:
  "(scan_step db p a s i r t = Inr (t', stop) \<longrightarrow>
      (\<exists>c. evaluate_candidate db p a s i r = Inr c
         \<and> ((i = 0 \<or> (\<exists>b. num_of t ''youtube_url_confidence'' = Inr b \<and> b < confidence_score c))
                \<and> t' = store t i c
             \<or> (i \<noteq> 0 \<and> (\<exists>b. num_of t ''youtube_url_confidence'' = Inr b \<and> \<not> b < confidence_score c))
                \<and> t' = t)))
   \<and> (xs \<noteq> [] \<and> scan db p a s 0 xs u = (u1, None) \<and> scan db p a s 0 (xs @ ys) u = (u2, out) \<longrightarrow>
        (\<exists>b1 b2. num_of u1 ''youtube_url_confidence'' = Inr b1
           \<and> num_of u2 ''youtube_url_confidence'' = Inr b2 \<and> b1 \<le> b2))"
proof (intro conjI impI)
  assume "scan_step db p a s i r t = Inr (t', stop)"
  from scan_step_cases[OF this]
  show "\<exists>c. evaluate_candidate db p a s i r = Inr c
         \<and> ((i = 0 \<or> (\<exists>b. num_of t ''youtube_url_confidence'' = Inr b \<and> b < confidence_score c))
                \<and> t' = store t i c
             \<or> (i \<noteq> 0 \<and> (\<exists>b. num_of t ''youtube_url_confidence'' = Inr b \<and> \<not> b < confidence_score c))
                \<and> t' = t)"
    by blast
next
  assume "xs \<noteq> [] \<and> scan db p a s 0 xs u = (u1, None) \<and> scan db p a s 0 (xs @ ys) u = (u2, out)"
  then show "\<exists>b1 b2. num_of u1 ''youtube_url_confidence'' = Inr b1
           \<and> num_of u2 ''youtube_url_confidence'' = Inr b2 \<and> b1 \<le> b2"
    using scan_prefix_monotone[of xs db p a s 0 u u1 ys u2 out] by blast
qed

lemma demo_scan_one:
  "scan ascii_db demo_provider (of_ascii ''Air'') (of_ascii ''La Femme'') 0 [demo_result] row2
     = (first_track, None)"
proof -
  have c: "confidence_score demo_candidate_0 = 1 / 2" by (simp add: demo_candidate_0_def)
  have "scan_step ascii_db demo_provider (of_ascii ''Air'') (of_ascii ''La Femme'') 0 demo_result row2
      = Inr (first_track, False)"
    by (simp add: scan_step_def demo_candidate_0_eval is_better_def c threshold_value first_track_def)
  then show ?thesis by simp
qed

lemma demo_step_two:
  "scan_step ascii_db demo_provider (of_ascii ''Air'') (of_ascii ''La Femme'') (Suc 0) demo_result first_track
      = Inr (store first_track (Suc 0) demo_candidate_1, True)"
proof -
  have c0: "confidence_score demo_candidate_0 = 1 / 2" by (simp add: demo_candidate_0_def)
  have c1: "confidence_score demo_candidate_1 = 1" by (simp add: demo_candidate_1_def)
  have n: "num_of first_track ''youtube_url_confidence'' = Inr (1 / 2)"
    by (simp add: first_track_def c0)
  show ?thesis
    by (simp add: scan_step_def demo_candidate_1_eval is_better_def n c1 threshold_value)
qed

lemma demo_scan_two:
  "scan ascii_db demo_provider (of_ascii ''Air'') (of_ascii ''La Femme'') 0 ([demo_result] @ [demo_result]) row2
     = (store first_track (Suc 0) demo_candidate_1, None)"
proof -
  have c: "confidence_score demo_candidate_0 = 1 / 2" by (simp add: demo_candidate_0_def)
  have "scan_step ascii_db demo_provider (of_ascii ''Air'') (of_ascii ''La Femme'') 0 demo_result row2
      = Inr (first_track, False)"
    by (simp add: scan_step_def demo_candidate_0_eval is_better_def c threshold_value first_track_def)
  then show ?thesis by (simp add: demo_step_two)
qed

theorem confidence_monotone_in_scan_witness:
  "scan_step ascii_db demo_provider (of_ascii ''Air'') (of_ascii ''La Femme'') (Suc 0) demo_result first_track
      = Inr (store first_track (Suc 0) demo_candidate_1, True)
   \<and> (\<exists>c. evaluate_candidate ascii_db demo_provider (of_ascii ''Air'') (of_ascii ''La Femme'') (Suc 0) demo_result = Inr c
         \<and> ((Suc 0 = 0 \<or> (\<exists>b. num_of first_track ''youtube_url_confidence'' = Inr b \<and> b < confidence_score c))
                \<and> store first_track (Suc 0) demo_candidate_1 = store first_track (Suc 0) c
             \<or> (Suc 0 \<noteq> 0 \<and> (\<exists>b. num_of first_track ''youtube_url_confidence'' = Inr b \<and> \<not> b < confidence_score c))
                \<and> store first_track (Suc 0) demo_candidate_1 = first_track))
   \<and> [demo_result] \<noteq> []
   \<and> scan ascii_db demo_provider (of_ascii ''Air'') (of_ascii ''La Femme'') 0 [demo_result] row2
       = (first_track, None)
   \<and> scan ascii_db demo_provider (of_ascii ''Air'') (of_ascii ''La Femme'') 0 ([demo_result] @ [demo_result]) row2
       = (store first_track (Suc 0) demo_candidate_1, None)
   \<and> (\<exists>b1 b2. num_of first_track ''youtube_url_confidence'' = Inr b1
         \<and> num_of (store first_track (Suc 0) demo_candidate_1) ''youtube_url_confidence'' = Inr b2
         \<and> b1 \<le> b2)"
proof -
  have h0: "[demo_result] \<noteq> []" by simp
  from confidence_monotone_in_scan[where db = ascii_db and p = demo_provider
      and a = "of_ascii ''Air''" and s = "of_ascii ''La Femme''" and i = "Suc 0" and r = demo_result
      and t = first_track and t' = "store first_track (Suc 0) demo_candidate_1" and stop = True
      and xs = "[demo_result]" and ys = "[demo_result]" and u = row2 and ?u1.0 = first_track
      and ?u2.0 = "store first_track (Suc 0) demo_candidate_1" and out = None]
    demo_step_two demo_scan_one demo_scan_two h0
  show ?thesis by blast
qed


lemma long_confidence_zero:
  assumes "evaluate_candidate db p a s i r = Inr c" "is_long p i r"
  shows "confidence_score c = 0"
  using assms
  by (auto simp: evaluate_candidate_def is_long_def Let_def
      split: option.splits pyval.splits sum.splits prod.splits if_splits)

lemma threshold_nonneg: "0 \<le> float_round (4 / 5)"
proof -
  have "\<bar>float_round (4 / 5) - 4 / 5\<bar> \<le> (4 / 5) / 2 ^ 53"
    by (rule float_round_rel) simp
  moreover have "(4 / 5) / 2 ^ 53 \<le> (4 / 5 :: rat)" by simp
  ultimately show ?thesis by linarith
qed

lemma scan_step_summary:
  assumes "scan_step db p a s i r t = Inr (t1, stop)" "i \<noteq> 0"
    and "num_of t ''youtube_url_confidence'' = Inr b"
    and "t ''result_idx'' = Some (Num (of_nat k0))"
  shows "\<exists>c b1 k1. evaluate_candidate db p a s i r = Inr c
           \<and> num_of t1 ''youtube_url_confidence'' = Inr b1
           \<and> t1 ''result_idx'' = Some (Num (of_nat k1))
           \<and> b \<le> b1 \<and> confidence_score c \<le> b1
           \<and> (k1 = k0 \<and> b1 = b \<or> k1 = i \<and> confidence_score c = b1)
           \<and> stop = (float_round (4 / 5) < b1)"
proof -
  from scan_step_cases[OF assms(1)] obtain c b' where
    c: "evaluate_candidate db p a s i r = Inr c"
    and d: "(i = 0 \<or> (\<exists>b. num_of t ''youtube_url_confidence'' = Inr b \<and> b < confidence_score c))
                  \<and> t1 = store t i c
               \<or> (i \<noteq> 0 \<and> (\<exists>b. num_of t ''youtube_url_confidence'' = Inr b \<and> \<not> b < confidence_score c))
                  \<and> t1 = t"
    and s: "num_of t1 ''youtube_url_confidence'' = Inr b'" "stop = (float_round (4 / 5) < b')"
    by blast
  from d show ?thesis
  proof
    assume h: "(i = 0 \<or> (\<exists>b. num_of t ''youtube_url_confidence'' = Inr b \<and> b < confidence_score c))
                  \<and> t1 = store t i c"
    with assms(2,3) have "b < confidence_score c" by auto
    moreover from h s(1) have "b' = confidence_score c" by simp
    ultimately show ?thesis using c s h by auto
  next
    assume h: "(i \<noteq> 0 \<and> (\<exists>b. num_of t ''youtube_url_confidence'' = Inr b \<and> \<not> b < confidence_score c))
                  \<and> t1 = t"
    with assms(3) have "confidence_score c \<le> b" by auto
    moreover from h s(1) assms(3) have "b' = b" by simp
    ultimately show ?thesis using c s h assms(4) by auto
  qed
qed

lemma scan_invariant:
  assumes "scan db p a s i rs t = (t', None)" "i \<noteq> 0"
    and "num_of t ''youtube_url_confidence'' = Inr b"
    and "t ''result_idx'' = Some (Num (of_nat k0))" "k0 < i"
  shows "\<exists>b' k'. num_of t' ''youtube_url_confidence'' = Inr b'
           \<and> t' ''result_idx'' = Some (Num (of_nat k')) \<and> b \<le> b'
           \<and> (k' = k0 \<and> b' = b
               \<or> i \<le> k' \<and> k' < i + length rs
                  \<and> (\<exists>c. evaluate_candidate db p a s k' (rs ! (k' - i)) = Inr c
                          \<and> confidence_score c = b'))
           \<and> (b' \<le> float_round (4 / 5) \<longrightarrow>
                (\<forall>j < length rs. \<exists>c. evaluate_candidate db p a s (i + j) (rs ! j) = Inr c
                                        \<and> confidence_score c \<le> b'))"
  using assms
proof (induction rs arbitrary: i t b k0)
  case Nil
  then show ?case by auto
next
  case (Cons r rs)
  show ?case
  proof (cases "scan_step db p a s i r t")
    case (Inl e)
    with Cons.prems(1) show ?thesis by simp
  next
    case (Inr x)
    obtain t1 stop where x: "x = (t1, stop)" by (cases x)
    from scan_step_summary[OF Inr[unfolded x] Cons.prems(2) Cons.prems(3) Cons.prems(4)]
    obtain c b1 k1 where
      c: "evaluate_candidate db p a s i r = Inr c"
      and b1: "num_of t1 ''youtube_url_confidence'' = Inr b1"
      and k1: "t1 ''result_idx'' = Some (Num (of_nat k1))"
      and le: "b \<le> b1" "confidence_score c \<le> b1"
      and w: "k1 = k0 \<and> b1 = b \<or> k1 = i \<and> confidence_score c = b1"
      and st: "stop = (float_round (4 / 5) < b1)"
      by blast
    show ?thesis
    proof (cases stop)
      case True
      with Inr x Cons.prems(1) have "t' = t1" by simp
      moreover from True st have "\<not> b1 \<le> float_round (4 / 5)" by simp
      ultimately show ?thesis using b1 k1 le w c by auto
    next
      case False
      with Inr x Cons.prems(1) have rec: "scan db p a s (Suc i) rs t1 = (t', None)" by simp
      from w Cons.prems(5) have k1i: "k1 < Suc i" by auto
      from Cons.IH[OF rec _ b1 k1 k1i] obtain b' k' where
        fb: "num_of t' ''youtube_url_confidence'' = Inr b'"
        and fk: "t' ''result_idx'' = Some (Num (of_nat k'))"
        and fle: "b1 \<le> b'"
        and fw: "k' = k1 \<and> b' = b1
               \<or> Suc i \<le> k' \<and> k' < Suc i + length rs
                  \<and> (\<exists>c. evaluate_candidate db p a s k' (rs ! (k' - Suc i)) = Inr c
                          \<and> confidence_score c = b')"
        and fall: "b' \<le> float_round (4 / 5) \<longrightarrow>
                (\<forall>j < length rs. \<exists>c. evaluate_candidate db p a s (Suc i + j) (rs ! j) = Inr c
                                        \<and> confidence_score c \<le> b')"
        by auto
      have win: "k' = k0 \<and> b' = b
               \<or> i \<le> k' \<and> k' < i + length (r # rs)
                  \<and> (\<exists>c. evaluate_candidate db p a s k' ((r # rs) ! (k' - i)) = Inr c
                          \<and> confidence_score c = b')"
      proof -
        from fw show ?thesis
        proof
          assume h: "k' = k1 \<and> b' = b1"
          from w show ?thesis
          proof
            assume "k1 = k0 \<and> b1 = b"
            with h show ?thesis by simp
          next
            assume "k1 = i \<and> confidence_score c = b1"
            with h c show ?thesis by simp
          qed
        next
          assume h: "Suc i \<le> k' \<and> k' < Suc i + length rs
                  \<and> (\<exists>c. evaluate_candidate db p a s k' (rs ! (k' - Suc i)) = Inr c
                          \<and> confidence_score c = b')"
          then have "k' - i = Suc (k' - Suc i)" by arith
          then have "(r # rs) ! (k' - i) = rs ! (k' - Suc i)" by simp
          with h show ?thesis by auto
        qed
      qed
      have all: "b' \<le> float_round (4 / 5) \<longrightarrow>
                (\<forall>j < length (r # rs). \<exists>c. evaluate_candidate db p a s (i + j) ((r # rs) ! j) = Inr c
                                        \<and> confidence_score c \<le> b')"
      proof (intro impI allI)
        fix j
        assume thr: "b' \<le> float_round (4 / 5)" and j: "j < length (r # rs)"
        show "\<exists>c. evaluate_candidate db p a s (i + j) ((r # rs) ! j) = Inr c \<and> confidence_score c \<le> b'"
        proof (cases j)
          case 0
          with c le(2) fle show ?thesis by auto
        next
          case (Suc j')
          with j have "j' < length rs" by simp
          with fall thr obtain c' where
            "evaluate_candidate db p a s (Suc i + j') (rs ! j') = Inr c'" "confidence_score c' \<le> b'"
            by blast
          with Suc show ?thesis by simp
        qed
      qed
      from fb fk le(1) fle win all show ?thesis by (intro exI[of _ b'] exI[of _ k']) auto
    qed
  qed
qed

lemma scan_from_zero_long_winner:
  assumes "scan db p a s 0 rs t = (t', None)"
    and "t' ''result_idx'' = Some (Num (of_nat k))" "k < length rs" "is_long p k (rs ! k)"
  shows "num_of t' ''youtube_url_confidence'' = Inr 0
         \<and> (\<forall>j < length rs. \<exists>c. evaluate_candidate db p a s j (rs ! j) = Inr c
                                 \<and> confidence_score c \<le> 0)"
proof (cases rs)
  case Nil
  with assms(3) show ?thesis by simp
next
  case (Cons r rs')
  show ?thesis
  proof (cases "scan_step db p a s 0 r t")
    case (Inl e)
    with assms(1) Cons show ?thesis by simp
  next
    case (Inr x)
    obtain t1 stop where x: "x = (t1, stop)" by (cases x)
    from scan_step_cases[OF Inr[unfolded x]] obtain c0 b1 where
      c0: "evaluate_candidate db p a s 0 r = Inr c0"
      and t1: "t1 = store t 0 c0"
      and b1: "num_of t1 ''youtube_url_confidence'' = Inr b1"
      and st: "stop = (float_round (4 / 5) < b1)"
      by auto
    from t1 b1 have b1c: "b1 = confidence_score c0" by simp
    from t1 have k1: "t1 ''result_idx'' = Some (Num (of_nat 0))" by simp
    have zero: "\<And>c. evaluate_candidate db p a s k (rs ! k) = Inr c \<Longrightarrow> confidence_score c = 0"
      using assms(4) by (rule long_confidence_zero[rotated])
    show ?thesis
    proof (cases stop)
      case True
      with Inr x assms(1) Cons have "t' = t1" by simp
      with k1 assms(2) have "k = 0" by simp
      with zero c0 Cons have "confidence_score c0 = 0" by simp
      with True st b1c threshold_nonneg show ?thesis by simp
    next
      case False
      with Inr x assms(1) Cons have rec: "scan db p a s (Suc 0) rs' t1 = (t', None)" by simp
      from scan_invariant[OF rec _ b1 k1] obtain b' k' where
        fb: "num_of t' ''youtube_url_confidence'' = Inr b'"
        and fk: "t' ''result_idx'' = Some (Num (of_nat k'))"
        and fle: "b1 \<le> b'"
        and fw: "k' = 0 \<and> b' = b1
               \<or> Suc 0 \<le> k' \<and> k' < Suc 0 + length rs'
                  \<and> (\<exists>c. evaluate_candidate db p a s k' (rs' ! (k' - Suc 0)) = Inr c
                          \<and> confidence_score c = b')"
        and fall: "b' \<le> float_round (4 / 5) \<longrightarrow>
                (\<forall>j < length rs'. \<exists>c. evaluate_candidate db p a s (Suc 0 + j) (rs' ! j) = Inr c
                                        \<and> confidence_score c \<le> b')"
        by auto
      from fk assms(2) have kk: "k' = k" by simp
      have b0: "b' = 0"
      proof -
        from fw show ?thesis
        proof
          assume h: "k' = 0 \<and> b' = b1"
          with kk zero[of c0] c0 Cons b1c show ?thesis by simp
        next
          assume h: "Suc 0 \<le> k' \<and> k' < Suc 0 + length rs'
                  \<and> (\<exists>c. evaluate_candidate db p a s k' (rs' ! (k' - Suc 0)) = Inr c
                          \<and> confidence_score c = b')"
          then obtain c where c: "evaluate_candidate db p a s k' (rs' ! (k' - Suc 0)) = Inr c"
            "confidence_score c = b'" by blast
          from h have "rs ! k' = rs' ! (k' - Suc 0)" using Cons by (cases k') auto
          with c kk zero[of c] show ?thesis by simp
        qed
      qed
      have all: "\<forall>j < length rs. \<exists>c. evaluate_candidate db p a s j (rs ! j) = Inr c
                                 \<and> confidence_score c \<le> 0"
      proof (intro allI impI)
        fix j assume j: "j < length rs"
        show "\<exists>c. evaluate_candidate db p a s j (rs ! j) = Inr c \<and> confidence_score c \<le> 0"
        proof (cases j)
          case 0
          with c0 Cons b1c fle b0 show ?thesis by auto
        next
          case (Suc j')
          with j Cons have "j' < length rs'" by simp
          with fall b0 threshold_nonneg obtain c' where
            "evaluate_candidate db p a s (Suc 0 + j') (rs' ! j') = Inr c'" "confidence_score c' \<le> b'"
            by auto
          with Suc Cons b0 show ?thesis by auto
        qed
      qed
      from fb b0 all show ?thesis by simp
    qed
  qed
qed

lemma long_candidate_eval:
  "evaluate_candidate ascii_db long_provider (of_ascii ''Air'') (of_ascii ''La Femme'') 0 demo_result =
     Inr long_candidate"
  by (simp add: eval_defs long_provider_def long_candidate_def)

lemma unmatched_candidate_eval:
  "evaluate_candidate ascii_db long_provider (of_ascii ''Air'') (of_ascii ''La Femme'') (Suc 0) demo_result =
     Inr unmatched_candidate"
  by (simp add: eval_defs long_provider_def unmatched_candidate_def)

lemma demo_is_long: "is_long long_provider 0 demo_result"
  by (simp add: is_long_def demo_result_def long_provider_def)

lemma long_scan:
  "scan ascii_db long_provider (of_ascii ''Air'') (of_ascii ''La Femme'') 0 [demo_result, demo_result] row2
     = (store row2 0 long_candidate, None)"
proof -
  have c0: "confidence_score long_candidate = 0" by (simp add: long_candidate_def)
  have c1: "confidence_score unmatched_candidate = 0" by (simp add: unmatched_candidate_def)
  have s0: "scan_step ascii_db long_provider (of_ascii ''Air'') (of_ascii ''La Femme'') 0 demo_result row2
      = Inr (store row2 0 long_candidate, False)"
    by (simp add: scan_step_def long_candidate_eval is_better_def c0 threshold_value)
  have s1: "scan_step ascii_db long_provider (of_ascii ''Air'') (of_ascii ''La Femme'') (Suc 0) demo_result
        (store row2 0 long_candidate) = Inr (store row2 0 long_candidate, False)"
    by (simp add: scan_step_def unmatched_candidate_eval is_better_def c0 c1 threshold_value)
  show ?thesis by (simp add: s0 s1)
qed

text \<open>
  C6: a candidate of 900 seconds or more is compared with confidence 0; and when a scan
  that started at the first candidate ends with such a candidate as the best match,
  the recorded confidence is 0 and no candidate of the list scored more than 0.
\<close>

theorem long_candidate_wins_only_with_zero:
  "(evaluate_candidate db p a s i r = Inr c \<and> is_long p i r \<longrightarrow> confidence_score c = 0)
   \<and> (scan db p a s 0 rs t = (t', None) \<and> t' ''result_idx'' = Some (Num (of_nat k))
        \<and> k < length rs \<and> is_long p k (rs ! k) \<longrightarrow>
        num_of t' ''youtube_url_confidence'' = Inr 0
        \<and> (\<forall>j < length rs. \<exists>c'. evaluate_candidate db p a s j (rs ! j) = Inr c'
                                \<and> confidence_score c' \<le> 0))"
proof (intro conjI impI)
  assume "evaluate_candidate db p a s i r = Inr c \<and> is_long p i r"
  then show "confidence_score c = 0" using long_confidence_zero by blast
next
  assume h: "scan db p a s 0 rs t = (t', None) \<and> t' ''result_idx'' = Some (Num (of_nat k))
        \<and> k < length rs \<and> is_long p k (rs ! k)"
  then have "num_of t' ''youtube_url_confidence'' = Inr 0
         \<and> (\<forall>j < length rs. \<exists>c. evaluate_candidate db p a s j (rs ! j) = Inr c
                                 \<and> confidence_score c \<le> 0)"
    using scan_from_zero_long_winner[of db p a s rs t t' k] by blast
  then show "num_of t' ''youtube_url_confidence'' = Inr 0" 
    and "\<forall>j < length rs. \<exists>c'. evaluate_candidate db p a s j (rs ! j) = Inr c'
                                \<and> confidence_score c' \<le> 0" by blast+
qed

theorem long_candidate_wins_only_with_zero_witness:
  "evaluate_candidate ascii_db long_provider (of_ascii ''Air'') (of_ascii ''La Femme'') 0 demo_result
      = Inr long_candidate
   \<and> is_long long_provider 0 demo_result
   \<and> confidence_score long_candidate = 0
   \<and> scan ascii_db long_provider (of_ascii ''Air'') (of_ascii ''La Femme'') 0 [demo_result, demo_result] row2
       = (store row2 0 long_candidate, None)
   \<and> store row2 0 long_candidate ''result_idx'' = Some (Num (of_nat 0))
   \<and> 0 < length [demo_result, demo_result]
   \<and> is_long long_provider 0 ([demo_result, demo_result] ! 0)
   \<and> num_of (store row2 0 long_candidate) ''youtube_url_confidence'' = Inr 0
   \<and> (\<exists>c'. evaluate_candidate ascii_db long_provider (of_ascii ''Air'') (of_ascii ''La Femme'') 0
                 ([demo_result, demo_result] ! 0) = Inr c' \<and> confidence_score c' \<le> 0)
   \<and> (\<exists>c'. evaluate_candidate ascii_db long_provider (of_ascii ''Air'') (of_ascii ''La Femme'') (Suc 0)
                 ([demo_result, demo_result] ! Suc 0) = Inr c' \<and> confidence_score c' \<le> 0)"
proof -
  have h1: "evaluate_candidate ascii_db long_provider (of_ascii ''Air'') (of_ascii ''La Femme'') 0 demo_result
      = Inr long_candidate" by (rule long_candidate_eval)
  have h2: "is_long long_provider 0 demo_result" by (rule demo_is_long)
  have h3: "scan ascii_db long_provider (of_ascii ''Air'') (of_ascii ''La Femme'') 0 [demo_result, demo_result] row2
       = (store row2 0 long_candidate, None)" by (rule long_scan)
  have h4: "store row2 0 long_candidate ''result_idx'' = Some (Num (of_nat 0))" by (rule store_idx)
  have h5: "0 < length [demo_result, demo_result]" by simp
  have h6: "is_long long_provider 0 ([demo_result, demo_result] ! 0)" using h2 by simp
  from long_candidate_wins_only_with_zero[where db = ascii_db and p = long_provider
      and a = "of_ascii ''Air''" and s = "of_ascii ''La Femme''" and i = 0 and r = demo_result
      and c = long_candidate and rs = "[demo_result, demo_result]" and t = row2
      and t' = "store row2 0 long_candidate" and k = 0] h1 h2 h3 h4 h5 h6
  have r: "num_of (store row2 0 long_candidate) ''youtube_url_confidence'' = Inr 0
        \<and> (\<forall>j < length [demo_result, demo_result].
              \<exists>c'. evaluate_candidate ascii_db long_provider (of_ascii ''Air'') (of_ascii ''La Femme'') j
                     ([demo_result, demo_result] ! j) = Inr c' \<and> confidence_score c' \<le> 0)"
    and z: "confidence_score long_candidate = 0"
    by blast+
  have l0: "0 < length [demo_result, demo_result]" and l1: "Suc 0 < length [demo_result, demo_result]"
    by simp_all
  from r l0 l1 z h1 h2 h3 h4 h6 show ?thesis by blast
qed


section \<open>Properties of the Retrying Fetcher and of the Concurrent Dispatcher\<close>

lemma retrying_error: "snd (retrying n f k t) = Inl e \<Longrightarrow> e = RetryError"
  by (induction n arbitrary: k t) (auto split: prod.splits sum.splits)

lemma perform_extraction_returns:
  assumes "0 < n"
  shows "perform_extraction db env n t g =
           Inr (fst (extract_youtube_link db env t),
                g\<lparr>total := n, count := count g + 1,
                  succeeded := succeeded g + (if task_ok db env t then 1 else 0),
                  failed := failed g + (if task_ok db env t then 0 else 1)\<rparr>)"
  using assms
  by (cases "extract_youtube_link db env t")
     (auto simp: perform_extraction_def task_ok_def Let_def split: sum.splits)

lemma pool_map_returns:
  assumes "0 < n"
  shows "\<exists>ts' g'. pool_map db envs n i ts g = Inr (ts', g')
           \<and> length ts' = length ts
           \<and> (\<forall>j < length ts. ts' ! j = fst (extract_youtube_link db (envs (i + j)) (ts ! j)))
           \<and> count g' = count g + length ts
           \<and> succeeded g' = succeeded g + length (filter (\<lambda>j. task_ok db (envs (i + j)) (ts ! j)) [0..<length ts])
           \<and> failed g' = failed g + length (filter (\<lambda>j. \<not> task_ok db (envs (i + j)) (ts ! j)) [0..<length ts])"
proof (induction ts arbitrary: i g)
  case Nil
  then show ?case by simp
next
  case (Cons t ts)
  let ?g1 = "g\<lparr>total := n, count := count g + 1,
                  succeeded := succeeded g + (if task_ok db (envs i) t then 1 else 0),
                  failed := failed g + (if task_ok db (envs i) t then 0 else 1)\<rparr>"
  let ?t1 = "fst (extract_youtube_link db (envs i) t)"
  have p: "perform_extraction db (envs i) n t g = Inr (?t1, ?g1)"
    using assms by (rule perform_extraction_returns)
  from Cons[of "Suc i" ?g1] obtain ts' g' where
    r: "pool_map db envs n (Suc i) ts ?g1 = Inr (ts', g')"
    and l: "length ts' = length ts"
    and e: "\<forall>j < length ts. ts' ! j = fst (extract_youtube_link db (envs (Suc i + j)) (ts ! j))"
    and c: "count g' = count ?g1 + length ts"
    and s: "succeeded g' = succeeded ?g1 + length (filter (\<lambda>j. task_ok db (envs (Suc i + j)) (ts ! j)) [0..<length ts])"
    and f: "failed g' = failed ?g1 + length (filter (\<lambda>j. \<not> task_ok db (envs (Suc i + j)) (ts ! j)) [0..<length ts])"
    by blast
  have shift: "\<And>P. length (filter P [0..<Suc (length ts)]) =
      (if P 0 then 1 else 0) + length (filter (\<lambda>j. P (Suc j)) [0..<length ts])"
  proof -
    fix P :: "nat \<Rightarrow> bool"
    have "[0..<Suc (length ts)] = 0 # map Suc [0..<length ts]"
      by (simp add: upt_conv_Cons map_Suc_upt del: upt_Suc)
    then show "length (filter P [0..<Suc (length ts)]) =
      (if P 0 then 1 else 0) + length (filter (\<lambda>j. P (Suc j)) [0..<length ts])"
      by (simp add: filter_map comp_def del: upt_Suc)
  qed
  have res: "pool_map db envs n i (t # ts) g = Inr (?t1 # ts', g')" using p r by simp
  have idx: "\<forall>j < length (t # ts). (?t1 # ts') ! j = fst (extract_youtube_link db (envs (i + j)) ((t # ts) ! j))"
  proof (intro allI impI)
    fix j assume "j < length (t # ts)"
    then show "(?t1 # ts') ! j = fst (extract_youtube_link db (envs (i + j)) ((t # ts) ! j))"
      using e by (cases j) auto
  qed
  have "succeeded g' = succeeded g + length (filter (\<lambda>j. task_ok db (envs (i + j)) ((t # ts) ! j)) [0..<length (t # ts)])"
    using s by (simp add: shift del: upt_Suc)
  moreover have "failed g' = failed g + length (filter (\<lambda>j. \<not> task_ok db (envs (i + j)) ((t # ts) ! j)) [0..<length (t # ts)])"
    using f by (simp add: shift del: upt_Suc)
  moreover have "count g' = count g + length (t # ts)" using c by simp
  moreover have "length (?t1 # ts') = length (t # ts)" using l by simp
  ultimately show ?case using res idx by blast
qed

text \<open>
  C4: when the retries of a track are exhausted, its task still returns: the track
  counts as failed, it keeps the fields the attempts had set, every track of the run is
  processed and counted, and \<open>pool.map\<close> returns.
\<close>

theorem exhausted_retries_fail_one_task:
  assumes "k < length ts"
    and "snd (extract_youtube_link db (envs k) (ts ! k)) = Inl e"
  shows "\<exists>ts' g'. pool_map db envs (length ts) 0 ts g = Inr (ts', g')
           \<and> length ts' = length ts
           \<and> (\<forall>j < length ts. ts' ! j = fst (extract_youtube_link db (envs j) (ts ! j)))
           \<and> count g' = count g + length ts
           \<and> succeeded g' = succeeded g + length (filter (\<lambda>j. task_ok db (envs j) (ts ! j)) [0..<length ts])
           \<and> failed g' = failed g + length (filter (\<lambda>j. \<not> task_ok db (envs j) (ts ! j)) [0..<length ts])
           \<and> failed g < failed g'"
proof -
  from assms(1) have n: "0 < length ts" by auto
  from pool_map_returns[OF n, of db envs 0 ts g] obtain ts' g' where
    r: "pool_map db envs (length ts) 0 ts g = Inr (ts', g')"
    and l: "length ts' = length ts"
    and e: "\<forall>j < length ts. ts' ! j = fst (extract_youtube_link db (envs j) (ts ! j))"
    and c: "count g' = count g + length ts"
    and s: "succeeded g' = succeeded g + length (filter (\<lambda>j. task_ok db (envs j) (ts ! j)) [0..<length ts])"
    and f: "failed g' = failed g + length (filter (\<lambda>j. \<not> task_ok db (envs j) (ts ! j)) [0..<length ts])"
    by auto
  have "\<not> task_ok db (envs k) (ts ! k)" using assms(2) by (simp add: task_ok_def)
  then have "k \<in> set (filter (\<lambda>j. \<not> task_ok db (envs j) (ts ! j)) [0..<length ts])"
    using assms(1) by simp
  then have "0 < length (filter (\<lambda>j. \<not> task_ok db (envs j) (ts ! j)) [0..<length ts])"
    by (metis length_pos_if_in_set)
  with f have "failed g < failed g'" by simp
  with r l e c s f show ?thesis by blast
qed


lemma search_failure_fails_attempt:
  assumes "\<And>q. youtube_search p q = Inl err"
  shows "\<exists>e. extract_once db p t = (t, Inl e)"
  by (auto simp: extract_once_def Let_def assms split: sum.splits)

lemma retrying_all_fail:
  assumes "\<And>k t. \<exists>e. f k t = (t, Inl e)"
  shows "retrying n f k t = (t, Inl RetryError)"
proof (induction n arbitrary: k)
  case 0
  then show ?case by simp
next
  case (Suc n)
  from assms[of k t] obtain e where "f k t = (t, Inl e)" by blast
  with Suc show ?case by simp
qed

lemma search_failure_exhausts_retries:
  assumes "\<And>k q. youtube_search (env k) q = Inl err"
  shows "extract_youtube_link db env t = (t, Inl RetryError)"
  unfolding extract_youtube_link_def
  by (rule retrying_all_fail) (rule search_failure_fails_attempt, rule assms)

theorem exhausted_retries_fail_one_task_witness:
  "0 < length [row1, row2]
   \<and> snd (extract_youtube_link ascii_db (demo_envs 0) ([row1, row2] ! 0)) = Inl RetryError
   \<and> (\<exists>ts' g'. pool_map ascii_db demo_envs (length [row1, row2]) 0 [row1, row2] zero_counters = Inr (ts', g')
           \<and> length ts' = length [row1, row2]
           \<and> (\<forall>j < length [row1, row2]. ts' ! j = fst (extract_youtube_link ascii_db (demo_envs j) ([row1, row2] ! j)))
           \<and> count g' = count zero_counters + length [row1, row2]
           \<and> succeeded g' = succeeded zero_counters
                + length (filter (\<lambda>j. task_ok ascii_db (demo_envs j) ([row1, row2] ! j)) [0..<length [row1, row2]])
           \<and> failed g' = failed zero_counters
                + length (filter (\<lambda>j. \<not> task_ok ascii_db (demo_envs j) ([row1, row2] ! j)) [0..<length [row1, row2]])
           \<and> failed zero_counters < failed g')"
proof -
  have h1: "0 < length [row1, row2]" by simp
  have "extract_youtube_link ascii_db (demo_envs 0) row1 = (row1, Inl RetryError)"
    by (rule search_failure_exhausts_retries[where err = ExternalError])
       (simp add: demo_envs_def down_provider_def)
  then have h2: "snd (extract_youtube_link ascii_db (demo_envs 0) ([row1, row2] ! 0)) = Inl RetryError"
    by simp
  from exhausted_retries_fail_one_task[where k = 0 and ts = "[row1, row2]" and db = ascii_db
      and envs = demo_envs and e = RetryError and g = zero_counters, OF h1 h2] h1 h2
  show ?thesis by blast
qed

section \<open>Properties of the Resume/Merge Manager and of the main program\<close>

lemma read_all_Inr: "read_all (map Inr dfs) = Inr dfs"
  by (induction dfs) auto

text \<open>
  C10: with resume enabled, if the prior output can be read but holds a key that is not
  in the input set, \<open>drop\<close> raises inside the \<open>try\<close>, the error is logged, and the
  load step returns every input row: nothing is skipped.
\<close>

theorem resume_extra_key_skips_nothing:
  assumes "dfs \<noteq> []"
    and "row \<in> set df_output"
    and "isrc_of row \<notin> set (map isrc_of (concat dfs))"
  shows "build_dataframe (map Inr dfs) True (Inr df_output) None =
           Inr (concat dfs, [Loading_csv_files, Found_csv_files (length dfs), Cannot_resume])"
proof -
  have "list_ex (\<lambda>l. l \<notin> set (map isrc_of (concat dfs))) (map isrc_of df_output)"
    using assms(2,3) unfolding list_ex_iff by auto
  then have "drop_rows (concat dfs) (map isrc_of df_output) = Inl KeyError"
    by (simp add: drop_rows_def)
  with assms(1) show ?thesis
    by (simp add: build_dataframe_def read_all_Inr)
qed

lemma isrc_rows:
  "isrc_of row1 = Some (Str (of_ascii ''ISRC001''))"
  "isrc_of row2 = Some (Str (of_ascii ''ISRC002''))"
  "isrc_of row9 = Some (Str (of_ascii ''ISRC999''))"
  by (simp_all add: isrc_of_def row1_def row2_def row9_def)

theorem resume_extra_key_skips_nothing_witness:
  "[[row1, row2]] \<noteq> [] \<and> row9 \<in> set [row1, row9]
   \<and> isrc_of row9 \<notin> set (map isrc_of (concat [[row1, row2]]))
   \<and> build_dataframe (map Inr [[row1, row2]]) True (Inr [row1, row9]) None =
         Inr (concat [[row1, row2]], [Loading_csv_files, Found_csv_files (length [[row1, row2]]), Cannot_resume])"
proof -
  have h1: "[[row1, row2]] \<noteq> []" by simp
  have h2: "row9 \<in> set [row1, row9]" by simp
  have h3: "isrc_of row9 \<notin> set (map isrc_of (concat [[row1, row2]]))"
    by (simp add: isrc_rows of_ascii_def)
  from resume_extra_key_skips_nothing[OF h1 h2 h3] h1 h2 h3 show ?thesis by blast
qed

text \<open>
  C7 asks that every input key already in the prior output is skipped.  Here the prior
  output holds \<open>ISRC001\<close> and a key \<open>ISRC999\<close> that the input does not have: both input
  rows are returned for dispatch, \<open>ISRC001\<close> too.
\<close>

theorem resume_redispatches_known_key:
  "build_dataframe [Inr [row1, row2]] True (Inr [row1, row9]) None =
     Inr ([row1, row2], [Loading_csv_files, Found_csv_files 1, Cannot_resume])"
  by (simp add: build_dataframe_def drop_rows_def isrc_rows of_ascii_def)

text \<open>
  When every key of the prior output is an input key, the known rows are skipped, and
  the save step writes the new rows followed by the prior ones.
\<close>

lemma resume_skips_known_keys:
  assumes "dfs \<noteq> []"
    and "set (map isrc_of df_output) \<subseteq> set (map isrc_of (concat dfs))"
  shows "build_dataframe (map Inr dfs) True (Inr df_output) None =
           Inr (filter (\<lambda>row. isrc_of row \<notin> set (map isrc_of df_output)) (concat dfs),
                [Loading_csv_files, Found_csv_files (length dfs)])"
proof -
  have "\<not> list_ex (\<lambda>l. l \<notin> set (map isrc_of (concat dfs))) (map isrc_of df_output)"
    using assms(2) unfolding list_ex_iff by auto
  then have "drop_rows (concat dfs) (map isrc_of df_output) =
      Inr (filter (\<lambda>row. isrc_of row \<notin> set (map isrc_of df_output)) (concat dfs))"
    by (simp add: drop_rows_def)
  with assms(1) show ?thesis
    by (simp add: build_dataframe_def read_all_Inr)
qed

lemma write_keeps_prior_and_new:
  assumes "list_ex (\<lambda>row. isrc_of row \<noteq> None) tracks"
  shows "write_dataframe tracks (Inr df_output) True = Inr (tracks @ df_output, [Writing_file])"
  using assms by (simp add: write_dataframe_def)


lemma resume_skips_known_key:
  "build_dataframe [Inr [row1, row2]] True (Inr [row1]) None =
     Inr ([row2], [Loading_csv_files, Found_csv_files 1])"
  by (simp add: build_dataframe_def drop_rows_def isrc_rows of_ascii_def)

text \<open>
  C1 asks that a run on an empty input set does not divide by zero.  With an input file
  that has no row, nothing is dispatched and nothing is written, and the last log
  message divides the time by the number of tracks: the program ends in
  \<open>ZeroDivisionError\<close>.
\<close>

theorem empty_input_divides_by_zero:
  "main db envs [Inr []] False output_csv execution_time
     = \<lparr> dispatched = [], written = None, finished = Inl ZeroDivisionError \<rparr>"
  by (simp add: main_def build_dataframe_def)

end
